theory Spec2Isabelle
  imports Main "HOL-Library.Word"
begin

unbundle bit_operations_syntax

section \<open>Data model of \<open>tools/n54flash.py\<close>\<close>

text \<open>
  Python \<open>bytes\<close> and \<open>bytearray\<close> values are lists of 8-bit words; Python's unbounded
  integers are \<open>nat\<close> where the source can only produce non-negative values (lengths,
  offsets, addresses, arbitration identifiers) and \<open>int\<close> elsewhere.
\<close>

type_synonym byte = "8 word"
type_synonym bytes = "byte list"

text \<open>
  Every \<open>raise\<close> of the source, and every exception its built-ins raise on the paths
  modelled here, is one constructor. The comment gives the Python exception.
  \<open>SessionError\<close> is the kind named by the specification's error taxonomy; no statement of
  the source raises it.
\<close>

datatype error =
    InvalidVin                \<comment> \<open>\<open>ValueError("VIN must be exactly 17 characters")\<close>\<close>
  | VinNotFound               \<comment> \<open>\<open>RuntimeError("Existing VIN not found in calibration area")\<close>\<close>
  | UnicodeEncodeError        \<comment> \<open>raised by \<open>str.encode("ascii")\<close>\<close>
  | StructError               \<comment> \<open>\<open>struct.error\<close> of \<open>struct.iter_unpack\<close>\<close>
  | IndexError                \<comment> \<open>subscript out of range\<close>
  | OverflowError             \<comment> \<open>\<open>int.to_bytes\<close>: int too big to convert\<close>
  | RangeStepZero             \<comment> \<open>\<open>ValueError("range() arg 3 must not be zero")\<close>\<close>
  | NoFlowControl             \<comment> \<open>\<open>RuntimeError("No FlowControl")\<close>\<close>
  | MissingFlowControl        \<comment> \<open>\<open>RuntimeError("Missing FC mid-transfer")\<close>\<close>
  | ConsecutiveTimeout        \<comment> \<open>\<open>RuntimeError("Consecutive frame timeout")\<close>\<close>
  | SessionRejected           \<comment> \<open>\<open>RuntimeError("Cannot enter programming session")\<close>\<close>
  | SeedRequestFailed         \<comment> \<open>\<open>RuntimeError("Seed request failed")\<close>\<close>
  | SecurityKeyRejected       \<comment> \<open>\<open>RuntimeError("Security key rejected")\<close>\<close>
  | BlockLengthError          \<comment> \<open>\<open>ValueError("Length must be 1..65535 bytes")\<close>\<close>
  | ReadMemoryFailed          \<comment> \<open>\<open>RuntimeError("ReadMemoryByAddress failed")\<close>\<close>
  | EraseRejected             \<comment> \<open>\<open>RuntimeError("Erase routine rejected")\<close>\<close>
  | DownloadRejected          \<comment> \<open>\<open>RuntimeError("RequestDownload rejected")\<close>\<close>
  | TransferDataFailed nat    \<comment> \<open>\<open>RuntimeError(f"TransferData failed at block {counter}")\<close>\<close>
  | TransferExitFailed        \<comment> \<open>\<open>RuntimeError("TransferExit failed")\<close>\<close>
  | ImageSizeError            \<comment> \<open>\<open>ValueError("Image must be exactly 1 MiB")\<close>\<close>
  | VerificationMismatch nat  \<comment> \<open>\<open>RuntimeError(f"Verification mismatch at 0x{addr:06X}")\<close>\<close>
  | SessionError              \<comment> \<open>specification only\<close>

subsection \<open>Constants\<close>

definition CAN_ID_REQ :: nat where "CAN_ID_REQ = 0x6F1"
definition CAN_ID_RESP :: nat where "CAN_ID_RESP = 0x6F9"

definition POS_RESP :: byte where "POS_RESP = 0x40"

definition SID_START_SESSION :: byte where "SID_START_SESSION = 0x10"
definition SID_SECURITY_ACCESS :: byte where "SID_SECURITY_ACCESS = 0x27"
definition SID_READ_MEMORY_BY_ADDR :: byte where "SID_READ_MEMORY_BY_ADDR = 0x23"


definition FLASH_SIZE :: nat where "FLASH_SIZE = 0x100000"

definition CAL_START :: nat where "CAL_START = 0x010000"
definition CAL_SIZE :: nat where "CAL_SIZE = 0x040000"
definition CAL_END :: nat where "CAL_END = CAL_START + CAL_SIZE"

subsection \<open>Python built-ins used by the source\<close>

text \<open>\<open>xs[i:j]\<close> for \<open>0 \<le> i\<close> and \<open>0 \<le> j\<close>: both ends are clamped to the length.\<close>

definition slice :: "'a list \<Rightarrow> nat \<Rightarrow> nat \<Rightarrow> 'a list" where
  "slice xs i j = take (j - i) (drop i xs)"

text \<open>
  \<open>buf[i:j] = v\<close> on a \<open>bytearray\<close>, for \<open>0 \<le> i\<close> and \<open>0 \<le> j\<close>: the ends are clamped
  to the length, an end before the start is moved to the start, and the slice is replaced
  by \<open>v\<close> whatever its length.
\<close>

definition slice_assign :: "'a list \<Rightarrow> nat \<Rightarrow> nat \<Rightarrow> 'a list \<Rightarrow> 'a list" where
  "slice_assign buf i j v =
     (let a = min i (length buf); b = max a (min j (length buf))
      in take a buf @ v @ drop b buf)"

text \<open>\<open>int.from_bytes(bs, "big")\<close>.\<close>

definition from_bytes_big :: "bytes \<Rightarrow> nat" where
  "from_bytes_big bs = foldl (\<lambda>acc b. acc * 256 + unat b) 0 bs"

text \<open>\<open>n.to_bytes(4, "big")\<close> for \<open>n \<ge> 0\<close>; it raises OverflowError from \<open>2 ^ 32\<close> on.\<close>

definition to_bytes4 :: "nat \<Rightarrow> error + bytes" where
  "to_bytes4 n =
     (if n < 2 ^ 32
      then Inr [of_nat (n div 2 ^ 24), of_nat (n div 2 ^ 16), of_nat (n div 2 ^ 8), of_nat n]
      else Inl OverflowError)"

subsection \<open>Frames and the frame bus\<close>

record Frame =
  arbitration_id :: nat
  data :: bytes

text \<open>
  The \<open>FrameBus\<close> capability is the environment. Its state is the list of results that
  the coming calls of \<open>recv\<close> will return (\<open>None\<close> is a timeout; an exhausted list times
  out for ever) and the list of frames sent so far. Waiting itself takes no step in the
  model.
\<close>

record bus =
  inbox :: "Frame option list"
  sent :: "Frame list"

definition bus_send :: "Frame \<Rightarrow> bus \<Rightarrow> bus" where
  "bus_send f s = s\<lparr>sent := sent s @ [f]\<rparr>"

definition bus_recv :: "bus \<Rightarrow> Frame option \<times> bus" where
  "bus_recv s = (case inbox s of [] \<Rightarrow> (None, s) | m # rest \<Rightarrow> (m, s\<lparr>inbox := rest\<rparr>))"

section \<open>Seed to key\<close>

definition calc_key_msd80 :: "int \<Rightarrow> int" where
  "calc_key_msd80 seed = ((seed XOR 0x5A3C) + 0x7F1B) AND 0xFFFF"

section \<open>ISO-TP\<close>

record IsoTp =
  tx_id :: nat
  rx_id :: nat

text \<open>
  The loop of \<open>IsoTp._recv\<close> that collects Consecutive frames:
  \<open>while len(buf) < total\<close>. Every round takes one result from the bus.
\<close>

function recv_loop :: "IsoTp \<Rightarrow> nat \<Rightarrow> bytes \<Rightarrow> bus \<Rightarrow> (error + bytes) \<times> bus" where
  "recv_loop tp tot buf s =
     (if length buf < tot then
        (case inbox s of
           [] \<Rightarrow> (Inl ConsecutiveTimeout, s)
         | None # rest \<Rightarrow> (Inl ConsecutiveTimeout, s\<lparr>inbox := rest\<rparr>)
         | Some cf # rest \<Rightarrow>
             if arbitration_id cf \<noteq> rx_id tp then (Inl ConsecutiveTimeout, s\<lparr>inbox := rest\<rparr>)
             else recv_loop tp tot (buf @ drop 1 (data cf)) (s\<lparr>inbox := rest\<rparr>))
      else (Inr (take tot buf), s))"
  by pat_completeness auto
termination
  by (relation "measure (\<lambda>(tp, tot, buf, s). length (inbox s))") auto

declare recv_loop.simps [simp del]

text \<open>
  \<open>IsoTp._recv(raw)\<close>. The result \<open>Inr None\<close> is the Python \<open>None\<close>. A First frame is
  answered with the FlowControl frame \<open>30 00 00 00 00 00 00 00\<close>.
\<close>

definition IsoTp_recv :: "IsoTp \<Rightarrow> bool \<Rightarrow> bus \<Rightarrow> (error + bytes option) \<times> bus" where
  "IsoTp_recv tp raw s =
     (case bus_recv s of
        (None, s1) \<Rightarrow> (Inr None, s1)
      | (Some msg, s1) \<Rightarrow>
          if arbitration_id msg \<noteq> rx_id tp then (Inr None, s1)
          else
            let d = data msg in
            if raw then (Inr (Some d), s1)
            else if d = [] then (Inl IndexError, s1)
            else
              let ptype = (d ! 0) AND 0xF0 in
              if ptype = 0x00 then (Inr (Some (slice d 1 (1 + unat ((d ! 0) AND 0x0F)))), s1)
              else if ptype = 0x10 then
                if length d < 2 then (Inl IndexError, s1)
                else
                  let tot = push_bit 8 (unat ((d ! 0) AND 0x0F)) OR unat (d ! 1);
                      buf = slice d 2 8;
                      s2 = bus_send \<lparr>arbitration_id = tx_id tp,
                                     data = [0x30, 0x00, 0x00] @ replicate 5 0x00\<rparr> s1
                  in (case recv_loop tp tot buf s2 of
                        (Inl e, s3) \<Rightarrow> (Inl e, s3)
                      | (Inr r, s3) \<Rightarrow> (Inr (Some r), s3))
              else (Inr None, s1))"

text \<open>
  The test \<open>not fc or fc[0] >> 4 != 0x3\<close> on the result of a raw receive, followed by
  \<open>st_min, bs = fc[2], fc[1]\<close>: the result is the block size. \<open>st_min\<close> only feeds
  \<open>time.sleep\<close>, which has no effect in the model.
\<close>

definition flow_control :: "error \<Rightarrow> bytes option \<Rightarrow> error + nat" where
  "flow_control e fc =
     (case fc of
        None \<Rightarrow> Inl e
      | Some d \<Rightarrow>
          if d = [] \<or> drop_bit 4 (d ! 0) \<noteq> 0x3 then Inl e
          else if length d < 3 then Inl IndexError
          else Inr (unat (d ! 1)))"

text \<open>The loop of \<open>IsoTp._send\<close> that emits Consecutive frames: \<open>while ptr < total\<close>.\<close>

function send_loop ::
  "IsoTp \<Rightarrow> bytes \<Rightarrow> nat \<Rightarrow> nat \<Rightarrow> nat \<Rightarrow> nat \<Rightarrow> bus \<Rightarrow> (error + unit) \<times> bus" where
  "send_loop tp payload ptr sn bs_cnt bs s =
     (if ptr < length payload then
        let chunk = slice payload ptr (ptr + 7);
            cf = [of_nat (0x20 OR (sn AND 0x0F))] @ chunk @ replicate (7 - length chunk) 0x00;
            s1 = bus_send \<lparr>arbitration_id = tx_id tp, data = cf\<rparr> s;
            ptr' = ptr + length chunk;
            sn' = (sn + 1) AND 0x0F;
            bs_cnt' = bs_cnt + 1
        in
          if bs \<noteq> 0 \<and> bs_cnt' \<ge> bs then
            (case IsoTp_recv tp True s1 of
               (Inl e, s2) \<Rightarrow> (Inl e, s2)
             | (Inr fc, s2) \<Rightarrow>
                 (case flow_control MissingFlowControl fc of
                    Inl e \<Rightarrow> (Inl e, s2)
                  | Inr bs' \<Rightarrow> send_loop tp payload ptr' sn' 0 bs' s2))
          else send_loop tp payload ptr' sn' bs_cnt' bs s1
      else (Inr (), s))"
  by pat_completeness auto
termination
  by (relation "measure (\<lambda>(tp, payload, ptr, sn, bs_cnt, bs, s). length payload - ptr)")
     (auto simp: slice_def)

declare send_loop.simps [simp del]

text \<open>\<open>IsoTp._send(payload)\<close>.\<close>

definition IsoTp_send :: "IsoTp \<Rightarrow> bytes \<Rightarrow> bus \<Rightarrow> (error + unit) \<times> bus" where
  "IsoTp_send tp payload s =
     (if length payload \<le> 7 then
        (Inr (), bus_send \<lparr>arbitration_id = tx_id tp,
                          data = [of_nat (length payload)] @ payload
                                 @ replicate (7 - length payload) 0x00\<rparr> s)
      else
        let tot = length payload;
            ff = [of_nat (0x10 OR (drop_bit 8 tot AND 0x0F)), of_nat (tot AND 0xFF)]
                 @ slice payload 0 6;
            s1 = bus_send \<lparr>arbitration_id = tx_id tp, data = ff\<rparr> s
        in (case IsoTp_recv tp True s1 of
              (Inl e, s2) \<Rightarrow> (Inl e, s2)
            | (Inr fc, s2) \<Rightarrow>
                (case flow_control NoFlowControl fc of
                   Inl e \<Rightarrow> (Inl e, s2)
                 | Inr bs \<Rightarrow> send_loop tp payload 6 1 0 bs s2)))"

text \<open>\<open>IsoTp.request(payload, expect_resp)\<close>.\<close>

definition IsoTp_request :: "IsoTp \<Rightarrow> bytes \<Rightarrow> bool \<Rightarrow> bus \<Rightarrow> (error + bytes option) \<times> bus" where
  "IsoTp_request tp payload expect_resp s =
     (case IsoTp_send tp payload s of
        (Inl e, s1) \<Rightarrow> (Inl e, s1)
      | (Inr _, s1) \<Rightarrow> if expect_resp then IsoTp_recv tp False s1 else (Inr None, s1))"

subsection \<open>Frames of a segmented payload, in closed form\<close>

text \<open>
  The frames that the specification's frame table describes for a payload \<open>P\<close>, written
  with division and remainder. The theorems below compare them with what \<open>IsoTp_send\<close>
  emits.
\<close>

definition ceil_div :: "nat \<Rightarrow> nat \<Rightarrow> nat" where
  "ceil_div a b = (a + b - 1) div b"

definition single_frame :: "IsoTp \<Rightarrow> bytes \<Rightarrow> Frame" where
  "single_frame tp P =
     \<lparr>arbitration_id = tx_id tp,
      data = [of_nat (length P)] @ P @ replicate (7 - length P) 0\<rparr>"

definition first_frame :: "IsoTp \<Rightarrow> bytes \<Rightarrow> Frame" where
  "first_frame tp P =
     \<lparr>arbitration_id = tx_id tp,
      data = [0x10 + of_nat (length P div 256), of_nat (length P mod 256)] @ take 6 P\<rparr>"

definition consecutive_frame :: "IsoTp \<Rightarrow> bytes \<Rightarrow> nat \<Rightarrow> Frame" where
  "consecutive_frame tp P k =
     (let chunk = take 7 (drop (6 + 7 * k) P)
      in \<lparr>arbitration_id = tx_id tp,
          data = [0x20 + of_nat ((k + 1) mod 16)] @ chunk @ replicate (7 - length chunk) 0\<rparr>)"

definition flow_control_frame :: "IsoTp \<Rightarrow> Frame" where
  "flow_control_frame tp = \<lparr>arbitration_id = tx_id tp, data = [0x30, 0, 0, 0, 0, 0, 0, 0]\<rparr>"

definition peer :: "IsoTp \<Rightarrow> IsoTp" where
  "peer tp = \<lparr>tx_id = rx_id tp, rx_id = tx_id tp\<rparr>"

definition flow_controls :: "IsoTp \<Rightarrow> bytes \<Rightarrow> Frame list" where
  \<comment> \<open>the FlowControl frames that the receiving peer of \<open>tp\<close> sends while \<open>P\<close> arrives\<close>
  "flow_controls tp P = (if length P \<le> 7 then [] else [flow_control_frame (peer tp)])"

section \<open>Flasher\<close>

text \<open>
  \<open>Flasher.__init__\<close> stores the bus and \<open>IsoTp(bus, CAN_ID_REQ, CAN_ID_RESP)\<close>, and
  nothing else: a Flasher has no session state. Its methods are functions of the bus
  state. The tester-present thread that \<open>flash\<close> starts runs concurrently and is not part
  of the model.
\<close>

definition Flasher_tp :: IsoTp where
  "Flasher_tp = \<lparr>tx_id = CAN_ID_REQ, rx_id = CAN_ID_RESP\<rparr>"

definition pos :: "byte \<Rightarrow> nat" where
  "pos sid = unat sid + unat POS_RESP"

text \<open>\<open>Flasher._kwp(sid, payload)\<close>; the result is \<open>resp or b""\<close>.\<close>

definition Flasher_kwp :: "byte \<Rightarrow> bytes \<Rightarrow> bool \<Rightarrow> bus \<Rightarrow> (error + bytes) \<times> bus" where
  "Flasher_kwp sid payload expect_resp s =
     (case IsoTp_request Flasher_tp ([sid] @ payload) expect_resp s of
        (Inl e, s1) \<Rightarrow> (Inl e, s1)
      | (Inr resp, s1) \<Rightarrow> (Inr (case resp of None \<Rightarrow> [] | Some r \<Rightarrow> r), s1))"

text \<open>The test \<open>not resp or resp[0] != pos(sid)\<close> that follows every request.\<close>

definition rejected :: "byte \<Rightarrow> bytes \<Rightarrow> bool" where
  "rejected sid resp = (resp = [] \<or> unat (resp ! 0) \<noteq> pos sid)"

definition enter_session :: "bus \<Rightarrow> (error + unit) \<times> bus" where
  "enter_session s =
     (case Flasher_kwp SID_START_SESSION [0x85] True s of
        (Inl e, s1) \<Rightarrow> (Inl e, s1)
      | (Inr resp, s1) \<Rightarrow>
          if rejected SID_START_SESSION resp then (Inl SessionRejected, s1) else (Inr (), s1))"

text \<open>
  \<open>Flasher.security_unlock\<close>. The key is below \<open>2 ^ 16\<close>, so \<open>key >> 8\<close> and
  \<open>key & 0xFF\<close> are byte values and \<open>bytes([...])\<close> does not raise.
\<close>

definition security_unlock :: "bus \<Rightarrow> (error + unit) \<times> bus" where
  "security_unlock s =
     (case Flasher_kwp SID_SECURITY_ACCESS [0x01] True s of
        (Inl e, s1) \<Rightarrow> (Inl e, s1)
      | (Inr seed_r, s1) \<Rightarrow>
          if rejected SID_SECURITY_ACCESS seed_r then (Inl SeedRequestFailed, s1)
          else
            let seed = int (from_bytes_big (slice seed_r 2 4));
                key = calc_key_msd80 seed
            in (case Flasher_kwp SID_SECURITY_ACCESS
                       [0x02, of_int (drop_bit 8 key), of_int (key AND 0xFF)] True s1 of
                  (Inl e, s2) \<Rightarrow> (Inl e, s2)
                | (Inr key_r, s2) \<Rightarrow>
                    if rejected SID_SECURITY_ACCESS key_r then (Inl SecurityKeyRejected, s2)
                    else (Inr (), s2)))"

definition read_block :: "nat \<Rightarrow> nat \<Rightarrow> bus \<Rightarrow> (error + bytes) \<times> bus" where
  "read_block addr len s =
     (if len \<le> 0 \<or> len > 0xFFFF then (Inl BlockLengthError, s)
      else
        (case to_bytes4 addr of
           Inl e \<Rightarrow> (Inl e, s)
         | Inr a \<Rightarrow>
             (case to_bytes4 len of
                Inl e \<Rightarrow> (Inl e, s)
              | Inr l \<Rightarrow>
                  (case Flasher_kwp SID_READ_MEMORY_BY_ADDR ([0x24] @ a @ [0x24] @ l) True s of
                     (Inl e, s1) \<Rightarrow> (Inl e, s1)
                   | (Inr resp, s1) \<Rightarrow>
                       if rejected SID_READ_MEMORY_BY_ADDR resp then (Inl ReadMemoryFailed, s1)
                       else (Inr (drop 1 resp), s1)))))"














text \<open>
  \<open>Flasher.backup(output, chunk)\<close>. The file that \<open>open(output, "wb")\<close> creates is the
  list of bytes written to it, returned beside the result; it keeps what was written when
  a read fails. \<open>chunk\<close> is a natural number here (the callers use the default
  \<open>0x0400\<close>); \<open>range\<close> raises on a zero step.
\<close>

function backup_loop :: "nat \<Rightarrow> nat \<Rightarrow> bytes \<Rightarrow> bus \<Rightarrow> (error + unit) \<times> bytes \<times> bus" where
  "backup_loop chunk addr buf s =
     (if chunk \<noteq> 0 \<and> addr < FLASH_SIZE then
        (case read_block addr (min chunk (FLASH_SIZE - addr)) s of
           (Inl e, s1) \<Rightarrow> (Inl e, buf, s1)
         | (Inr d, s1) \<Rightarrow> backup_loop chunk (addr + chunk) (buf @ d) s1)
      else (Inr (), buf, s))"
  by pat_completeness auto
termination
  by (relation "measure (\<lambda>(chunk, addr, buf, s). FLASH_SIZE - addr)") auto

declare backup_loop.simps [simp del]

definition backup :: "nat \<Rightarrow> bus \<Rightarrow> (error + unit) \<times> bytes \<times> bus" where
  "backup chunk s =
     (if chunk = 0 then (Inl RangeStepZero, [], s) else backup_loop chunk 0 [] s)"





section \<open>VIN patch\<close>

text \<open>
  A Python \<open>str\<close> is the list of its code points. \<open>s.encode("ascii")\<close> raises
  UnicodeEncodeError on a code point from 128 on.
\<close>

type_synonym str = "nat list"

definition encode_ascii :: "str \<Rightarrow> error + bytes" where
  "encode_ascii s = (if list_all (\<lambda>c. c < 128) s then Inr (map of_nat s) else Inl UnicodeEncodeError)"

text \<open>\<open>xs.find(sub)\<close>: the lowest index where \<open>sub\<close> starts in \<open>xs\<close>, or \<open>-1\<close>.\<close>

fun find_first :: "bytes \<Rightarrow> bytes \<Rightarrow> nat option" where
  "find_first sub [] = (if sub = [] then Some 0 else None)"
| "find_first sub (x # xs) =
     (if take (length sub) (x # xs) = sub then Some 0
      else map_option Suc (find_first sub xs))"

definition bytes_find :: "bytes \<Rightarrow> bytes \<Rightarrow> int" where
  "bytes_find xs sub = (case find_first sub xs of None \<Rightarrow> - 1 | Some i \<Rightarrow> int i)"

text \<open>
  \<open>struct.iter_unpack(">H", bs)\<close>: the 16-bit big-endian words of \<open>bs\<close>; it raises
  \<open>struct.error\<close> when the length is odd.
\<close>

fun words_be :: "bytes \<Rightarrow> int list" where
  "words_be (hi # lo # rest) = (256 * uint hi + uint lo) # words_be rest"
| "words_be _ = []"

definition iter_unpack_H :: "bytes \<Rightarrow> error + int list" where
  "iter_unpack_H bs = (if odd (length bs) then Inl StructError else Inr (words_be bs))"

text \<open>\<open>n.to_bytes(2, "big")\<close> for \<open>0 \<le> n < 2 ^ 16\<close>.\<close>

definition to_bytes2 :: "int \<Rightarrow> bytes" where
  "to_bytes2 n = [of_int (n div 256), of_int n]"

text \<open>
  \<open>bytes\<close> and \<open>bytearray\<close> objects live in a store, addressed by their index:
  \<open>bytearray(image)\<close> allocates a copy, a slice assignment updates the object in place.
\<close>

type_synonym heap = "bytes list"

definition bytearray :: "heap \<Rightarrow> bytes \<Rightarrow> nat \<times> heap" where
  "bytearray h v = (length h, h @ [v])"

text \<open>\<open>_fix_cal_checksum(buf)\<close>: it updates the object \<open>buf\<close> in place.\<close>

definition fix_cal_checksum :: "heap \<Rightarrow> nat \<Rightarrow> (error + unit) \<times> heap" where
  "fix_cal_checksum h buf =
     (let cal = slice (h ! buf) CAL_START CAL_END
      in (case iter_unpack_H (take (length cal - 2) cal) of
            Inl e \<Rightarrow> (Inl e, h)
          | Inr ws \<Rightarrow>
              let checksum = sum_list ws AND 0xFFFF;
                  corrected = (- checksum) AND 0xFFFF
              in (Inr (),
                  h[buf := slice_assign (h ! buf) (CAL_END - 2) CAL_END (to_bytes2 corrected)])))"

text \<open>
  \<open>patch_vin(image, new_vin)\<close>. The image is the object \<open>image\<close> of the store; the
  result is the new \<open>bytes\<close> value, beside the store as the call leaves it.
\<close>

definition patch_vin :: "heap \<Rightarrow> nat \<Rightarrow> str \<Rightarrow> (error + bytes) \<times> heap" where
  "patch_vin h img new_vin =
     (if length new_vin \<noteq> 17 then (Inl InvalidVin, h)
      else
        let (buf, h1) = bytearray h (h ! img)
        in (case encode_ascii new_vin of
              Inl e \<Rightarrow> (Inl e, h1)
            | Inr vin_bytes \<Rightarrow>
                let cal_region = slice (h1 ! buf) CAL_START CAL_END;
                    idx = bytes_find cal_region vin_bytes
                in if idx = - 1 then (Inl VinNotFound, h1)
                   else
                     let abs_idx = CAL_START + nat idx;
                         h2 = h1[buf := slice_assign (h1 ! buf) abs_idx (abs_idx + 17) vin_bytes]
                     in (case fix_cal_checksum h2 buf of
                           (Inl e, h3) \<Rightarrow> (Inl e, h3)
                         | (Inr _, h3) \<Rightarrow> (Inr (h3 ! buf), h3))))"

subsection \<open>Reading an image\<close>

text \<open>
  The vocabulary of the statements about \<open>patch_vin\<close>: where a byte sequence occurs in a
  list, and the sum of the 16-bit big-endian words of the calibration region.
\<close>

definition occurs_at :: "bytes \<Rightarrow> bytes \<Rightarrow> nat \<Rightarrow> bool" where
  "occurs_at sub xs i = (i + length sub \<le> length xs \<and> take (length sub) (drop i xs) = sub)"

definition cal_words :: "bytes \<Rightarrow> int list" where
  "cal_words img = words_be (slice img CAL_START CAL_END)"

subsection \<open>A cooperative ECU\<close>




section \<open>Properties\<close>

subsection \<open>Bit arithmetic of the protocol control bytes\<close>

lemma lt16: "(h::nat) < 16 \<Longrightarrow> h \<in> {0,1,2,3,4,5,6,7,8,9,10,11,12,13,14,15}"
  by (simp add: numeral_eq_Suc less_Suc_eq) 

lemma nat_and_ff: "(n::nat) AND 0xFF = n mod 256"
proof -
  have "(0xFF::nat) = mask 8" by (simp add: mask_eq_exp_minus_1)
  then have "n AND 0xFF = take_bit 8 n" by (simp only: take_bit_eq_mask)
  then show ?thesis by (simp add: take_bit_eq_mod)
qed

lemma nat_and_0f: "(n::nat) AND 0x0F = n mod 16"
proof -
  have "(0x0F::nat) = mask 4" by (simp add: mask_eq_exp_minus_1)
  then have "n AND 0x0F = take_bit 4 n" by (simp only: take_bit_eq_mask)
  then show ?thesis by (simp add: take_bit_eq_mod)
qed

lemma pci_first: "h < 16 \<Longrightarrow> (of_nat (0x10 OR h) :: byte) = 0x10 + of_nat h"
  using lt16[of h] by auto

lemma pci_consecutive: "h < 16 \<Longrightarrow> (of_nat (0x20 OR h) :: byte) = 0x20 + of_nat h"
  using lt16[of h] by auto

lemma IsoTp_recv_raw_sent: "IsoTp_recv tp True s = (r, s') \<Longrightarrow> sent s' = sent s"
  by (auto simp: IsoTp_recv_def bus_recv_def Let_def split: list.splits option.splits if_splits)

lemma send_loop_chunk:
  "ptr < length P \<Longrightarrow> ptr = 6 + 7 * k \<Longrightarrow>
   bus_send \<lparr>arbitration_id = tx_id tp,
     data = [of_nat (0x20 OR (((k + 1) mod 16) AND 0x0F))] @ slice P ptr (ptr + 7)
            @ replicate (7 - length (slice P ptr (ptr + 7))) 0x00\<rparr> s
   = s\<lparr>sent := sent s @ [consecutive_frame tp P k]\<rparr>"
  by (simp add: bus_send_def consecutive_frame_def slice_def Let_def nat_and_0f pci_consecutive)

lemma send_loop_sent:
  assumes "send_loop tp P ptr sn c bs s = (Inr (), s')"
    and "ptr < length P \<Longrightarrow> ptr = 6 + 7 * k \<and> sn = (k + 1) mod 16"
    and "length P \<le> ptr \<Longrightarrow> ceil_div (length P - 6) 7 \<le> k"
  shows "sent s' = sent s @ map (consecutive_frame tp P) [k ..< ceil_div (length P - 6) 7]"
  using assms
proof (induction tp P ptr sn c bs s arbitrary: k rule: send_loop.induct)
  case (1 tp P ptr sn c bs s)
  show ?case
  proof (cases "ptr < length P")
    case False
    with "1.prems" show ?thesis by (simp add: send_loop.simps)
  next
    case True
    define chunk where "chunk = slice P ptr (ptr + 7)"
    define s1 where "s1 = s\<lparr>sent := sent s @ [consecutive_frame tp P k]\<rparr>"
    define ptr' where "ptr' = ptr + length chunk"
    define sn' where "sn' = (sn + 1) AND (0x0F::nat)"
    from True "1.prems"(2) have pk: "ptr = 6 + 7 * k" and snk: "sn = (k + 1) mod 16" by auto
    have s1: "bus_send \<lparr>arbitration_id = tx_id tp,
        data = [of_nat (0x20 OR (sn AND 0x0F))] @ chunk @ replicate (7 - length chunk) 0x00\<rparr> s = s1"
      unfolding chunk_def s1_def snk using send_loop_chunk [OF True pk] .
    have klt: "k < ceil_div (length P - 6) 7" using True pk unfolding ceil_div_def by arith
    have len: "length chunk = min 7 (length P - ptr)" by (simp add: chunk_def slice_def)
    have inv1: "ptr' < length P \<Longrightarrow> ptr' = 6 + 7 * (k + 1) \<and> sn' = (k + 1 + 1) mod 16"
      using pk snk len by (auto simp: ptr'_def sn'_def nat_and_0f mod_simps)
    have inv2: "length P \<le> ptr' \<Longrightarrow> ceil_div (length P - 6) 7 \<le> k + 1"
      using pk len unfolding ptr'_def ceil_div_def by arith
    have upt: "[k ..< ceil_div (length P - 6) 7] = k # [k + 1 ..< ceil_div (length P - 6) 7]"
      using klt by (simp add: upt_conv_Cons)
    show ?thesis
    proof (cases "bs \<noteq> 0 \<and> c + 1 \<ge> bs")
      case False
      then have "send_loop tp P ptr sn c bs s = send_loop tp P ptr' sn' (c + 1) bs s1"
        using True s1 by (subst send_loop.simps) (auto simp: Let_def chunk_def ptr'_def sn'_def)
      with "1.prems"(1) have run: "send_loop tp P ptr' sn' (c + 1) bs s1 = (Inr (), s')" by simp
      have "sent s' = sent s1 @ map (consecutive_frame tp P) [k + 1 ..< ceil_div (length P - 6) 7]"
        using "1.IH"(2) [OF True chunk_def refl s1 [symmetric] ptr'_def sn'_def refl False run inv1 inv2] by simp
      then show ?thesis by (simp add: s1_def upt)
    next
      case bsT: True
      obtain r s2 where rc: "IsoTp_recv tp True s1 = (r, s2)" by (cases "IsoTp_recv tp True s1")
      have unf: "send_loop tp P ptr sn c bs s =
          (case r of Inl e \<Rightarrow> (Inl e, s2)
           | Inr fc \<Rightarrow> (case flow_control MissingFlowControl fc of
                Inl e \<Rightarrow> (Inl e, s2) | Inr bs' \<Rightarrow> send_loop tp P ptr' sn' 0 bs' s2))"
        using True s1 bsT rc
        by (subst send_loop.simps) (auto simp: Let_def chunk_def ptr'_def sn'_def split: sum.splits)
      from "1.prems"(1) unf obtain fc bs' where r: "r = Inr fc"
        and fc: "flow_control MissingFlowControl fc = Inr bs'"
        and run: "send_loop tp P ptr' sn' 0 bs' s2 = (Inr (), s')"
        by (auto split: sum.splits)
      have "sent s' = sent s2 @ map (consecutive_frame tp P) [k + 1 ..< ceil_div (length P - 6) 7]"
        using "1.IH"(1) [OF True chunk_def refl s1 [symmetric] ptr'_def sn'_def refl bsT
            rc [symmetric] r fc run inv1 inv2] .
      moreover have "sent s2 = sent s1" using IsoTp_recv_raw_sent [OF rc] .
      ultimately show ?thesis by (simp add: s1_def upt)
    qed
  qed
qed

subsection \<open>What \<open>IsoTp_send\<close> emits and what \<open>recv_loop\<close> rebuilds\<close>

lemma tot_dec: "l < 256 \<Longrightarrow> push_bit 8 h OR l = h * 256 + (l::nat)"
proof -
  assume l: "l < 256"
  then have tl: "take_bit 8 l = l" by (simp add: take_bit_nat_eq_self_iff)
  have "push_bit 8 h + l = push_bit 8 h OR l"
  proof (rule disjunctive_add_eq_or, rule bit_eqI)
    fix n
    have "bit l n \<Longrightarrow> n < 8" using tl by (metis bit_take_bit_iff)
    then show "bit (push_bit 8 h AND l) n = bit (0::nat) n"
      by (auto simp: bit_and_iff bit_push_bit_iff)
  qed
  then show ?thesis by (simp add: push_bit_eq_mult)
qed

lemma le7: "(n::nat) \<le> 7 \<Longrightarrow> n \<in> {0,1,2,3,4,5,6,7}"
  by (simp add: numeral_eq_Suc le_Suc_eq)

lemma single_pci_type: "n \<le> 7 \<Longrightarrow> (of_nat n :: byte) AND 0xF0 = 0"
  using le7 [of n] by auto

lemma single_pci_len: "n \<le> 7 \<Longrightarrow> unat ((of_nat n :: byte) AND 0x0F) = n"
  using le7 [of n] by auto

lemma first_pci_type: "h < 16 \<Longrightarrow> ((0x10 + of_nat h) :: byte) AND 0xF0 = 0x10"
  using lt16 [of h] by auto

lemma first_pci_len: "h < 16 \<Longrightarrow> unat (((0x10 + of_nat h) :: byte) AND 0x0F) = h"
  using lt16 [of h] by auto

lemma first_frame_data:
  assumes "length P \<le> 4095"
  shows "[of_nat (0x10 OR (drop_bit 8 (length P) AND 0x0F)), of_nat (length P AND 0xFF)]
           @ slice P 0 6 = data (first_frame tp P)"
proof -
  have "length P div 256 < 16" using assms by simp
  then show ?thesis
    by (simp add: first_frame_def slice_def nat_and_ff nat_and_0f drop_bit_eq_div pci_first)
qed

lemma first_frame_total:
  assumes "length P \<le> 4095"
  shows "push_bit 8 (unat ((data (first_frame tp P) ! 0) AND 0x0F))
           OR unat (data (first_frame tp P) ! 1) = length P"
proof -
  have h: "length P div 256 < 16" using assms by simp
  have "unat (of_nat (length P mod 256) :: byte) = length P mod 256"
    by (simp add: unat_of_nat)
  then show ?thesis
    using h by (simp add: first_frame_def first_pci_len tot_dec)
qed

lemma send_loop_unlimited:
  "bs = 0 \<Longrightarrow> \<exists>s'. send_loop tp P ptr sn c bs s = (Inr (), s') \<and> inbox s' = inbox s"
proof (induction tp P ptr sn c bs s rule: send_loop.induct)
  case (1 tp P ptr sn c bs s)
  show ?case
  proof (cases "ptr < length P")
    case False
    then show ?thesis by (simp add: send_loop.simps)
  next
    case True
    have nb: "\<not> (bs \<noteq> 0 \<and> bs \<le> c + 1)" using "1.prems" by simp
    from "1.IH"(2) [OF True refl refl refl refl refl refl nb "1.prems"] obtain s' where
      "send_loop tp P (ptr + length (slice P ptr (ptr + 7))) ((sn + 1) AND 0x0F) (c + 1) bs
         (bus_send \<lparr>arbitration_id = tx_id tp,
            data = [of_nat (0x20 OR (sn AND 0x0F))] @ slice P ptr (ptr + 7)
                   @ replicate (7 - length (slice P ptr (ptr + 7))) 0x00\<rparr> s) = (Inr (), s')"
      and "inbox s' = inbox s"
      by (auto simp: bus_send_def)
    then show ?thesis using True "1.prems" by (subst send_loop.simps) (simp add: Let_def)
  qed
qed

lemma IsoTp_send_single:
  "length P \<le> 7 \<Longrightarrow> IsoTp_send tp P s = (Inr (), s\<lparr>sent := sent s @ [single_frame tp P]\<rparr>)"
  by (simp add: IsoTp_send_def single_frame_def bus_send_def)

lemma IsoTp_send_sent:
  assumes "7 < length P" and "length P \<le> 4095"
    and "IsoTp_send tp P s = (Inr (), s')"
  shows "sent s' = sent s @ first_frame tp P
           # map (consecutive_frame tp P) [0 ..< ceil_div (length P - 6) 7]"
proof -
  define s1 where "s1 = s\<lparr>sent := sent s @ [first_frame tp P]\<rparr>"
  have ff: "\<lparr>arbitration_id = tx_id tp,
        data = [of_nat (0x10 OR (drop_bit 8 (length P) AND 0x0F)), of_nat (length P AND 0xFF)]
               @ slice P 0 6\<rparr> = first_frame tp P"
    unfolding first_frame_data [OF assms(2), of tp] by (simp add: first_frame_def)
  obtain r s2 where rc: "IsoTp_recv tp True s1 = (r, s2)" by (cases "IsoTp_recv tp True s1")
  have unf: "IsoTp_send tp P s =
      (case r of Inl e \<Rightarrow> (Inl e, s2)
       | Inr fc \<Rightarrow> (case flow_control NoFlowControl fc of
            Inl e \<Rightarrow> (Inl e, s2) | Inr bs \<Rightarrow> send_loop tp P 6 1 0 bs s2))"
    using assms(1) rc unfolding IsoTp_send_def Let_def ff
    by (simp add: bus_send_def s1_def)
  from assms(3) unf obtain fc bs where "r = Inr fc"
    and run: "send_loop tp P 6 1 0 bs s2 = (Inr (), s')"
    by (auto split: sum.splits)
  have "sent s' = sent s2 @ map (consecutive_frame tp P) [0 ..< ceil_div (length P - 6) 7]"
    using assms(1) by (intro send_loop_sent [OF run]) auto
  moreover have "sent s2 = sent s1" using IsoTp_recv_raw_sent [OF rc] .
  ultimately show ?thesis by (simp add: s1_def)
qed

lemma IsoTp_send_unlimited:
  assumes "7 < length P" and "length P \<le> 4095"
    and "inbox s = Some fc # rest" and "arbitration_id fc = rx_id tp"
    and "3 \<le> length (data fc)" and "drop_bit 4 (data fc ! 0) = 0x3" and "data fc ! 1 = 0"
  shows "\<exists>s'. IsoTp_send tp P s = (Inr (), s') \<and> inbox s' = rest"
proof -
  define s1 where "s1 = bus_send \<lparr>arbitration_id = tx_id tp,
        data = [of_nat (0x10 OR (drop_bit 8 (length P) AND 0x0F)), of_nat (length P AND 0xFF)]
               @ slice P 0 6\<rparr> s"
  have rc: "IsoTp_recv tp True s1 = (Inr (Some (data fc)), s1\<lparr>inbox := rest\<rparr>)"
    using assms(3,4) by (simp add: IsoTp_recv_def bus_recv_def s1_def bus_send_def)
  have fl: "flow_control NoFlowControl (Some (data fc)) = Inr 0"
    using assms(5,6,7) by (auto simp: flow_control_def)
  have "IsoTp_send tp P s = send_loop tp P 6 1 0 0 (s1\<lparr>inbox := rest\<rparr>)"
    using assms(1) rc fl unfolding IsoTp_send_def Let_def s1_def [symmetric] by simp
  then show ?thesis using send_loop_unlimited [of 0 tp P 6 1 0 "s1\<lparr>inbox := rest\<rparr>"] by auto
qed

lemma recv_loop_consecutive:
  assumes "rx_id tp' = tx_id tp" and "k \<le> ceil_div (length P - 6) 7"
    and "(k < ceil_div (length P - 6) 7 \<and> buf = take (6 + 7 * k) P)
         \<or> (k = ceil_div (length P - 6) 7 \<and> length P \<le> length buf \<and> take (length P) buf = P)"
  shows "recv_loop tp' (length P) buf
           \<lparr>inbox = map Some (map (consecutive_frame tp P) [k ..< ceil_div (length P - 6) 7]) @ rest,
            sent = snt\<rparr>
         = (Inr P, \<lparr>inbox = rest, sent = snt\<rparr>)"
  using assms(2,3)
proof (induction "ceil_div (length P - 6) 7 - k" arbitrary: k buf)
  case 0
  then have "k = ceil_div (length P - 6) 7" by simp
  with "0.prems" show ?case by (subst recv_loop.simps) auto
next
  case (Suc n)
  define N where "N = ceil_div (length P - 6) 7"
  define a where "a = 6 + 7 * k"
  define chunk where "chunk = take 7 (drop a P)"
  define buf' where "buf' = buf @ chunk @ replicate (7 - length chunk) 0"
  from Suc have klt: "k < N" and buf: "buf = take a P" by (auto simp: N_def a_def)
  have alt: "a < length P" using klt unfolding N_def a_def ceil_div_def by arith
  have bufa: "buf' = take (a + 7) P @ replicate (7 - length chunk) 0"
    by (simp add: buf'_def buf chunk_def take_add)
  have inv: "(k + 1 < N \<and> buf' = take (6 + 7 * (k + 1)) P)
      \<or> (k + 1 = N \<and> length P \<le> length buf' \<and> take (length P) buf' = P)"
  proof (cases "k + 1 < N")
    case True
    then have "a + 7 < length P" unfolding N_def a_def ceil_div_def by arith
    then have "length chunk = 7" by (simp add: chunk_def)
    then show ?thesis using True by (simp add: bufa a_def add.commute)
  next
    case False
    then have kN: "k + 1 = N" using klt by simp
    have "length P \<le> a + 7" using False unfolding N_def a_def ceil_div_def by arith
    then have "take (a + 7) P = P" by simp
    then show ?thesis using kN by (simp add: bufa)
  qed
  have upt: "[k ..< N] = k # [k + 1 ..< N]" using klt by (simp add: upt_conv_Cons)
  have step: "recv_loop tp' (length P) buf
       \<lparr>inbox = map Some (map (consecutive_frame tp P) [k ..< N]) @ rest, sent = snt\<rparr>
     = recv_loop tp' (length P) buf'
       \<lparr>inbox = map Some (map (consecutive_frame tp P) [k + 1 ..< N]) @ rest, sent = snt\<rparr>"
    using alt assms(1)
    by (subst recv_loop.simps)
       (simp add: upt buf consecutive_frame_def Let_def buf'_def chunk_def a_def)
  have "n = N - (k + 1)" using Suc.hyps(2) by (simp add: N_def)
  from Suc.hyps(1) [OF this [unfolded N_def] _ inv [unfolded N_def]] klt
  show ?case using step unfolding N_def by simp
qed

subsection \<open>Segmentation and reassembly\<close>

text \<open>
  C4. For a payload of at most 7 bytes \<open>IsoTp_send\<close> emits exactly one frame, the Single
  frame, whose data are 8 bytes (length, payload, zero padding). For a payload of 8 to
  4095 bytes a send that completes has emitted exactly the First frame, carrying the
  first 6 bytes, followed by \<open>\<lceil>(|P| - 6) / 7\<rceil>\<close> Consecutive frames, the \<open>k\<close>-th of them
  (from 0) with sequence number \<open>(k + 1) mod 16\<close>; and the send completes when the peer
  answers the First frame with its FlowControl frame.
\<close>

theorem IsoTp_send_frame_count:
  "(length P \<le> 7 \<longrightarrow>
      IsoTp_send tp P s = (Inr (), s\<lparr>sent := sent s @ [single_frame tp P]\<rparr>)
      \<and> length (data (single_frame tp P)) = 8)
   \<and> (7 < length P \<and> length P \<le> 4095 \<and> IsoTp_send tp P s = (Inr (), s') \<longrightarrow>
      (\<exists>cfs. sent s' = sent s @ first_frame tp P # cfs
         \<and> length cfs = ceil_div (length P - 6) 7
         \<and> (\<forall>k < length cfs. cfs ! k = consecutive_frame tp P k)))
   \<and> (7 < length P \<and> length P \<le> 4095
        \<and> inbox s = Some (flow_control_frame (peer tp)) # rest \<longrightarrow>
      (\<exists>s1. IsoTp_send tp P s = (Inr (), s1) \<and> inbox s1 = rest))"
proof (intro conjI impI)
  assume "length P \<le> 7"
  then show "IsoTp_send tp P s = (Inr (), s\<lparr>sent := sent s @ [single_frame tp P]\<rparr>)"
    by (rule IsoTp_send_single)
  show "length (data (single_frame tp P)) = 8"
    using \<open>length P \<le> 7\<close> by (simp add: single_frame_def)
next
  assume a: "7 < length P \<and> length P \<le> 4095 \<and> IsoTp_send tp P s = (Inr (), s')"
  let ?cfs = "map (consecutive_frame tp P) [0 ..< ceil_div (length P - 6) 7]"
  have "sent s' = sent s @ first_frame tp P # ?cfs"
    using a by (intro IsoTp_send_sent) auto
  moreover have "length ?cfs = ceil_div (length P - 6) 7" by simp
  moreover have "\<forall>k < length ?cfs. ?cfs ! k = consecutive_frame tp P k" by simp
  ultimately show "\<exists>cfs. sent s' = sent s @ first_frame tp P # cfs
         \<and> length cfs = ceil_div (length P - 6) 7
         \<and> (\<forall>k < length cfs. cfs ! k = consecutive_frame tp P k)"
    by blast
next
  assume a: "7 < length P \<and> length P \<le> 4095
        \<and> inbox s = Some (flow_control_frame (peer tp)) # rest"
  show "\<exists>s1. IsoTp_send tp P s = (Inr (), s1) \<and> inbox s1 = rest"
    using a by (intro IsoTp_send_unlimited [where fc = "flow_control_frame (peer tp)"])
      (auto simp: flow_control_frame_def peer_def)
qed

theorem IsoTp_send_frame_count_witness:
  "IsoTp_send Flasher_tp [0x10, 0x85] \<lparr>inbox = [], sent = []\<rparr>
     = (Inr (), \<lparr>inbox = [], sent =
         [\<lparr>arbitration_id = 0x6F1, data = [0x02, 0x10, 0x85, 0, 0, 0, 0, 0]\<rparr>]\<rparr>)
   \<and> (\<exists>s1. IsoTp_send Flasher_tp (replicate 20 0xAA)
           \<lparr>inbox = [Some \<lparr>arbitration_id = 0x6F9, data = [0x30, 0, 0, 0, 0, 0, 0, 0]\<rparr>],
            sent = []\<rparr> = (Inr (), s1)
         \<and> inbox s1 = []
         \<and> sent s1 =
           [\<lparr>arbitration_id = 0x6F1, data = [0x10, 0x14, 0xAA, 0xAA, 0xAA, 0xAA, 0xAA, 0xAA]\<rparr>,
            \<lparr>arbitration_id = 0x6F1, data = [0x21, 0xAA, 0xAA, 0xAA, 0xAA, 0xAA, 0xAA, 0xAA]\<rparr>,
            \<lparr>arbitration_id = 0x6F1, data = [0x22, 0xAA, 0xAA, 0xAA, 0xAA, 0xAA, 0xAA, 0xAA]\<rparr>])"
proof
  let ?Q = "[0x10, 0x85] :: bytes"
  let ?e = "\<lparr>inbox = [], sent = []\<rparr>"
  have "length ?Q \<le> 7" by simp
  with IsoTp_send_frame_count [of ?Q Flasher_tp ?e]
  have "IsoTp_send Flasher_tp ?Q ?e = (Inr (), ?e\<lparr>sent := sent ?e @ [single_frame Flasher_tp ?Q]\<rparr>)"
    by blast
  moreover have "single_frame Flasher_tp ?Q
      = \<lparr>arbitration_id = 0x6F1, data = [0x02, 0x10, 0x85, 0, 0, 0, 0, 0]\<rparr>"
    by code_simp
  ultimately show "IsoTp_send Flasher_tp ?Q ?e
     = (Inr (), \<lparr>inbox = [], sent =
         [\<lparr>arbitration_id = 0x6F1, data = [0x02, 0x10, 0x85, 0, 0, 0, 0, 0]\<rparr>]\<rparr>)"
    by simp
next
  let ?P = "replicate 20 (0xAA :: byte)"
  let ?s = "\<lparr>inbox = [Some \<lparr>arbitration_id = 0x6F9, data = [0x30, 0, 0, 0, 0, 0, 0, 0]\<rparr>],
             sent = []\<rparr>"
  have fc: "flow_control_frame (peer Flasher_tp)
      = \<lparr>arbitration_id = 0x6F9, data = [0x30, 0, 0, 0, 0, 0, 0, 0]\<rparr>"
    by code_simp
  have len: "7 < length ?P \<and> length ?P \<le> 4095" by simp
  from IsoTp_send_frame_count [of ?P Flasher_tp ?s _ "[]"] len fc
  obtain s1 where run: "IsoTp_send Flasher_tp ?P ?s = (Inr (), s1)" and inb: "inbox s1 = []"
    by auto
  from IsoTp_send_frame_count [of ?P Flasher_tp ?s s1] len run
  have "\<exists>cfs. sent s1 = sent ?s @ first_frame Flasher_tp ?P # cfs
         \<and> length cfs = ceil_div (length ?P - 6) 7
         \<and> (\<forall>k < length cfs. cfs ! k = consecutive_frame Flasher_tp ?P k)"
    by blast
  then obtain cfs where snt: "sent s1 = first_frame Flasher_tp ?P # cfs"
    and n: "length cfs = ceil_div (length ?P - 6) 7"
    and nth: "\<forall>k < length cfs. cfs ! k = consecutive_frame Flasher_tp ?P k"
    by force
  have "ceil_div (length ?P - 6) 7 = 2" by code_simp
  with n have n2: "length cfs = 2" by simp
  then have "cfs = [cfs ! 0, cfs ! 1]"
    by (cases cfs; cases "tl cfs") auto
  with nth n2 have "cfs = [consecutive_frame Flasher_tp ?P 0, consecutive_frame Flasher_tp ?P 1]"
    by simp
  moreover have "first_frame Flasher_tp ?P
      = \<lparr>arbitration_id = 0x6F1, data = [0x10, 0x14, 0xAA, 0xAA, 0xAA, 0xAA, 0xAA, 0xAA]\<rparr>"
    by code_simp
  moreover have "consecutive_frame Flasher_tp ?P 0
      = \<lparr>arbitration_id = 0x6F1, data = [0x21, 0xAA, 0xAA, 0xAA, 0xAA, 0xAA, 0xAA, 0xAA]\<rparr>"
    by code_simp
  moreover have "consecutive_frame Flasher_tp ?P 1
      = \<lparr>arbitration_id = 0x6F1, data = [0x22, 0xAA, 0xAA, 0xAA, 0xAA, 0xAA, 0xAA, 0xAA]\<rparr>"
    by code_simp
  ultimately show "\<exists>s1. IsoTp_send Flasher_tp ?P ?s = (Inr (), s1) \<and> inbox s1 = []
         \<and> sent s1 =
           [\<lparr>arbitration_id = 0x6F1, data = [0x10, 0x14, 0xAA, 0xAA, 0xAA, 0xAA, 0xAA, 0xAA]\<rparr>,
            \<lparr>arbitration_id = 0x6F1, data = [0x21, 0xAA, 0xAA, 0xAA, 0xAA, 0xAA, 0xAA, 0xAA]\<rparr>,
            \<lparr>arbitration_id = 0x6F1, data = [0x22, 0xAA, 0xAA, 0xAA, 0xAA, 0xAA, 0xAA, 0xAA]\<rparr>]"
    using run inb snt by simp
qed

lemma IsoTp_recv_single:
  assumes "length P \<le> 7" and "rx_id tp' = tx_id tp"
  shows "IsoTp_recv tp' False \<lparr>inbox = Some (single_frame tp P) # rest, sent = snt\<rparr>
         = (Inr (Some P), \<lparr>inbox = rest, sent = snt\<rparr>)"
  using assms
  by (simp add: IsoTp_recv_def bus_recv_def single_frame_def single_pci_type single_pci_len
      slice_def)

lemma IsoTp_recv_first:
  assumes "7 < length P" and "length P \<le> 4095" and "rx_id tp' = tx_id tp"
  shows "IsoTp_recv tp' False
           \<lparr>inbox = Some (first_frame tp P)
               # map Some (map (consecutive_frame tp P) [0 ..< ceil_div (length P - 6) 7]) @ rest,
            sent = snt\<rparr>
         = (Inr (Some P), \<lparr>inbox = rest, sent = snt @ [flow_control_frame tp']\<rparr>)"
proof -
  let ?d = "data (first_frame tp P)"
  have h: "length P div 256 < 16" using assms(2) by simp
  have d0: "?d ! 0 = 0x10 + of_nat (length P div 256)" and dn: "?d \<noteq> []"
    and dl: "\<not> length ?d < 2" and buf: "slice ?d 2 8 = take 6 P"
    by (simp_all add: first_frame_def slice_def)
  have ty: "(?d ! 0) AND 0xF0 = 0x10" unfolding d0 using h by (rule first_pci_type)
  have tot: "push_bit 8 (unat ((?d ! 0) AND 0x0F)) OR unat (?d ! 1) = length P"
    using assms(2) by (rule first_frame_total)
  have fcf: "\<lparr>arbitration_id = tx_id tp', data = [0x30, 0x00, 0x00] @ replicate 5 0x00\<rparr>
      = flow_control_frame tp'"
    by (simp add: flow_control_frame_def numeral_eq_Suc)
  have pos: "0 < ceil_div (length P - 6) 7" using assms(1) unfolding ceil_div_def by arith
  have loop: "recv_loop tp' (length P) (take 6 P)
      \<lparr>inbox = map Some (map (consecutive_frame tp P) [0 ..< ceil_div (length P - 6) 7]) @ rest,
       sent = snt @ [flow_control_frame tp']\<rparr>
      = (Inr P, \<lparr>inbox = rest, sent = snt @ [flow_control_frame tp']\<rparr>)"
    using pos by (intro recv_loop_consecutive [OF assms(3)]) auto
  have id: "arbitration_id (first_frame tp P) = tx_id tp" by (simp add: first_frame_def)
  show ?thesis
    unfolding IsoTp_recv_def Let_def fcf
    using assms(3) dn dl ty tot loop
    by (simp add: bus_recv_def bus_send_def buf id)
qed

text \<open>
  C1. Round trip. A payload \<open>P\<close> of 1 to 4095 bytes is sent by \<open>IsoTp_send\<close> on a bus
  whose inbox holds what the receiving peer sends (nothing for a Single frame, its
  FlowControl frame after a First frame); the send completes and consumes that inbox.
  \<open>IsoTp_recv\<close> of the peer, run on the frames that were sent, returns exactly \<open>P\<close>,
  consumes all of them, and sends exactly those FlowControl frames.
\<close>

theorem iso_tp_roundtrip:
  assumes "1 \<le> length P" and "length P \<le> 4095"
  shows "\<exists>s1. IsoTp_send tp P \<lparr>inbox = map Some (flow_controls tp P), sent = []\<rparr> = (Inr (), s1)
           \<and> inbox s1 = []
           \<and> IsoTp_recv (peer tp) False \<lparr>inbox = map Some (sent s1), sent = []\<rparr>
               = (Inr (Some P), \<lparr>inbox = [], sent = flow_controls tp P\<rparr>)"
proof (cases "length P \<le> 7")
  case True
  have rx: "rx_id (peer tp) = tx_id tp" by (simp add: peer_def)
  show ?thesis
    using True IsoTp_recv_single [OF True rx, of "[]" "[]"]
    by (simp add: IsoTp_send_single flow_controls_def)
next
  case False
  then have long: "7 < length P" by simp
  have rx: "rx_id (peer tp) = tx_id tp" by (simp add: peer_def)
  let ?s = "\<lparr>inbox = map Some (flow_controls tp P), sent = []\<rparr>"
  have fcs: "flow_controls tp P = [flow_control_frame (peer tp)]"
    using False by (simp add: flow_controls_def)
  have "\<exists>s1. IsoTp_send tp P ?s = (Inr (), s1) \<and> inbox s1 = []"
    using long assms(2)
    by (intro IsoTp_send_unlimited [where fc = "flow_control_frame (peer tp)"])
       (auto simp: fcs flow_control_frame_def peer_def)
  then obtain s1 where run: "IsoTp_send tp P ?s = (Inr (), s1)" and inb: "inbox s1 = []"
    by blast
  have snt: "sent s1 = first_frame tp P
      # map (consecutive_frame tp P) [0 ..< ceil_div (length P - 6) 7]"
    using IsoTp_send_sent [OF long assms(2) run] by simp
  have "IsoTp_recv (peer tp) False \<lparr>inbox = map Some (sent s1), sent = []\<rparr>
      = (Inr (Some P), \<lparr>inbox = [], sent = flow_controls tp P\<rparr>)"
    using IsoTp_recv_first [OF long assms(2) rx, of "[]" "[]"] by (simp add: snt fcs)
  with run inb show ?thesis by blast
qed

theorem iso_tp_roundtrip_witness:
  "\<exists>s1. IsoTp_send Flasher_tp (replicate 20 0xAA)
           \<lparr>inbox = [Some \<lparr>arbitration_id = 0x6F9, data = [0x30, 0, 0, 0, 0, 0, 0, 0]\<rparr>],
            sent = []\<rparr> = (Inr (), s1)
     \<and> inbox s1 = []
     \<and> IsoTp_recv \<lparr>tx_id = 0x6F9, rx_id = 0x6F1\<rparr> False \<lparr>inbox = map Some (sent s1), sent = []\<rparr>
         = (Inr (Some (replicate 20 0xAA)),
            \<lparr>inbox = [], sent = [\<lparr>arbitration_id = 0x6F9, data = [0x30, 0, 0, 0, 0, 0, 0, 0]\<rparr>]\<rparr>)"
proof -
  let ?P = "replicate 20 (0xAA :: byte)"
  have len: "1 \<le> length ?P" "length ?P \<le> 4095" by simp_all
  have fcs: "flow_controls Flasher_tp ?P
      = [\<lparr>arbitration_id = 0x6F9, data = [0x30, 0, 0, 0, 0, 0, 0, 0]\<rparr>]"
    by code_simp
  have pr: "peer Flasher_tp = \<lparr>tx_id = 0x6F9, rx_id = 0x6F1\<rparr>" by code_simp
  from iso_tp_roundtrip [OF len, of Flasher_tp] show ?thesis
    unfolding fcs pr by simp
qed

subsection \<open>Frames with another identifier\<close>

text \<open>
  C7, as the code has it. A received frame whose arbitration identifier is not \<open>rx_id\<close>
  contributes no data, and the receive does not wait past it: \<open>IsoTp_recv\<close> takes the
  frame from the bus and returns \<open>None\<close> at once, as it does on a timeout, and the loop
  that collects Consecutive frames raises its timeout error.
\<close>

theorem IsoTp_recv_wrong_id:
  assumes "arbitration_id f \<noteq> rx_id tp"
  shows "IsoTp_recv tp raw (s\<lparr>inbox := Some f # rest\<rparr>) = (Inr None, s\<lparr>inbox := rest\<rparr>)
       \<and> IsoTp_recv tp raw (s\<lparr>inbox := Some f # rest\<rparr>)
           = IsoTp_recv tp raw (s\<lparr>inbox := None # rest\<rparr>)
       \<and> (length buf < tot \<longrightarrow>
            recv_loop tp tot buf (s\<lparr>inbox := Some f # rest\<rparr>)
              = (Inl ConsecutiveTimeout, s\<lparr>inbox := rest\<rparr>))"
  using assms
  by (simp add: IsoTp_recv_def bus_recv_def recv_loop.simps)

theorem IsoTp_recv_wrong_id_witness:
  "IsoTp_recv Flasher_tp False
     \<lparr>inbox = [Some \<lparr>arbitration_id = 0x123, data = [0x02, 0x50, 0x85, 0, 0, 0, 0, 0]\<rparr>],
      sent = []\<rparr> = (Inr None, \<lparr>inbox = [], sent = []\<rparr>)
   \<and> recv_loop Flasher_tp 20 [0x50, 0x85, 0, 0, 0, 0]
     \<lparr>inbox = [Some \<lparr>arbitration_id = 0x123, data = [0x21, 1, 2, 3, 4, 5, 6, 7]\<rparr>],
      sent = []\<rparr> = (Inl ConsecutiveTimeout, \<lparr>inbox = [], sent = []\<rparr>)"
proof -
  let ?f = "\<lparr>arbitration_id = 0x123, data = [0x02, 0x50, 0x85, 0, 0, 0, 0, 0 :: byte]\<rparr>"
  let ?g = "\<lparr>arbitration_id = 0x123, data = [0x21, 1, 2, 3, 4, 5, 6, 7 :: byte]\<rparr>"
  let ?e = "\<lparr>inbox = [], sent = []\<rparr>"
  have f: "arbitration_id ?f \<noteq> rx_id Flasher_tp" and g: "arbitration_id ?g \<noteq> rx_id Flasher_tp"
    by (simp_all add: Flasher_tp_def CAN_ID_RESP_def)
  have l: "length [0x50, 0x85, 0, 0, 0, 0 :: byte] < 20" by simp
  from IsoTp_recv_wrong_id [OF f, where raw = False and s = ?e and rest = "[]"]
    IsoTp_recv_wrong_id [OF g, where raw = True and s = ?e and rest = "[]"
      and buf = "[0x50, 0x85, 0, 0, 0, 0]" and tot = 20] l
  show ?thesis by simp
qed

theorem IsoTp_recv_wrong_id_counterexample:
  "IsoTp_recv Flasher_tp False
     \<lparr>inbox = [Some \<lparr>arbitration_id = 0x123, data = [0x01, 0x00, 0, 0, 0, 0, 0, 0]\<rparr>,
               Some \<lparr>arbitration_id = 0x6F9, data = [0x02, 0x50, 0x85, 0, 0, 0, 0, 0]\<rparr>],
      sent = []\<rparr>
     = (Inr None,
        \<lparr>inbox = [Some \<lparr>arbitration_id = 0x6F9, data = [0x02, 0x50, 0x85, 0, 0, 0, 0, 0]\<rparr>],
         sent = []\<rparr>)
   \<and> IsoTp_recv Flasher_tp False
     \<lparr>inbox = [Some \<lparr>arbitration_id = 0x6F9, data = [0x02, 0x50, 0x85, 0, 0, 0, 0, 0]\<rparr>],
      sent = []\<rparr>
     = (Inr (Some [0x50, 0x85]), \<lparr>inbox = [], sent = []\<rparr>)
   \<and> fst (enter_session
     \<lparr>inbox = [Some \<lparr>arbitration_id = 0x123, data = [0x01, 0x00, 0, 0, 0, 0, 0, 0]\<rparr>,
               Some \<lparr>arbitration_id = 0x6F9, data = [0x02, 0x50, 0x85, 0, 0, 0, 0, 0]\<rparr>],
      sent = []\<rparr>) = Inl SessionRejected
   \<and> fst (enter_session
     \<lparr>inbox = [Some \<lparr>arbitration_id = 0x6F9, data = [0x02, 0x50, 0x85, 0, 0, 0, 0, 0]\<rparr>],
      sent = []\<rparr>) = Inr ()"
  by code_simp

subsection \<open>Seed and key\<close>

lemma and_ffff: "(x :: int) AND 0xFFFF = x mod 65536"
proof -
  have "(0xFFFF :: int) = mask 16" by (simp add: mask_eq_exp_minus_1)
  then have "x AND 0xFFFF = take_bit 16 x" by (simp only: take_bit_eq_mask)
  then show ?thesis by (simp add: take_bit_eq_mod)
qed

lemma and_ff_int: "(x :: int) AND 0xFF = x mod 256"
proof -
  have "(0xFF :: int) = mask 8" by (simp add: mask_eq_exp_minus_1)
  then have "x AND 0xFF = take_bit 8 x" by (simp only: take_bit_eq_mask)
  then show ?thesis by (simp add: take_bit_eq_mod)
qed

lemma calc_key_msd80_range: "0 \<le> calc_key_msd80 s \<and> calc_key_msd80 s < 65536"
  by (simp add: calc_key_msd80_def and_ffff)

lemma recv_loop_sent: "recv_loop tp tot buf s = (r, s') \<Longrightarrow> sent s' = sent s"
proof (induction tp tot buf s rule: recv_loop.induct)
  case (1 tp tot buf s)
  show ?case
  proof (cases "length buf < tot")
    case False
    with "1.prems" show ?thesis by (simp add: recv_loop.simps)
  next
    case True
    show ?thesis
    proof (cases "inbox s")
      case Nil
      with True "1.prems" show ?thesis by (simp add: recv_loop.simps)
    next
      case (Cons m rest)
      show ?thesis
      proof (cases m)
        case None
        with True Cons "1.prems" show ?thesis by (auto simp: recv_loop.simps)
      next
        case (Some cf)
        show ?thesis
        proof (cases "arbitration_id cf \<noteq> rx_id tp")
          case True
          with \<open>length buf < tot\<close> Cons Some "1.prems" show ?thesis
            by (auto simp: recv_loop.simps)
        next
          case False
          with \<open>length buf < tot\<close> Cons Some "1.prems"
          have "recv_loop tp tot (buf @ drop 1 (data cf)) (s\<lparr>inbox := rest\<rparr>) = (r, s')"
            by (simp add: recv_loop.simps)
          from "1.IH" [OF \<open>length buf < tot\<close> Cons Some False this]
          show ?thesis by simp
        qed
      qed
    qed
  qed
qed

lemma IsoTp_recv_sent: "IsoTp_recv tp raw s = (r, s') \<Longrightarrow> \<exists>more. sent s' = sent s @ more"
  by (auto simp: IsoTp_recv_def bus_recv_def bus_send_def Let_def
      split: list.splits option.splits if_splits prod.splits sum.splits
      dest!: recv_loop_sent)

lemma Flasher_kwp_single_sent:
  assumes "length payload \<le> 6"
  shows "\<exists>more. sent (snd (Flasher_kwp sid payload True s))
           = sent s @ single_frame Flasher_tp (sid # payload) # more"
proof -
  let ?s1 = "s\<lparr>sent := sent s @ [single_frame Flasher_tp (sid # payload)]\<rparr>"
  obtain r s2 where rc: "IsoTp_recv Flasher_tp False ?s1 = (r, s2)"
    by (cases "IsoTp_recv Flasher_tp False ?s1")
  from IsoTp_recv_sent [OF rc] obtain more where "sent s2 = sent ?s1 @ more" by blast
  moreover have "snd (Flasher_kwp sid payload True s) = s2"
    using assms rc
    by (simp add: Flasher_kwp_def IsoTp_request_def IsoTp_send_single split: sum.splits)
  ultimately show ?thesis by simp
qed

text \<open>
  C2. For every seed in \<open>[0, 0xFFFF]\<close> the key is \<open>((s XOR 0x5A3C) + 0x7F1B) mod 2 ^ 16\<close>;
  the key of seed \<open>0x1234\<close> is \<open>0xC723\<close>; and once the seed request is answered
  positively, the next frame that \<open>security_unlock\<close> sends is the Single frame of the
  request \<open>27 02 hi lo\<close>, where \<open>hi\<close> and \<open>lo\<close> are the high and the low byte of the key
  of the seed read big-endian from bytes 2 and 3 of the answer.
\<close>

theorem calc_key_msd80_spec:
  "(0 \<le> s \<and> s \<le> 0xFFFF \<longrightarrow> calc_key_msd80 s = ((s XOR 0x5A3C) + 0x7F1B) mod 2 ^ 16)
   \<and> calc_key_msd80 0x1234 = 0xC723
   \<and> (Flasher_kwp SID_SECURITY_ACCESS [0x01] True b = (Inr seed_r, b1)
        \<and> \<not> rejected SID_SECURITY_ACCESS seed_r \<longrightarrow>
      (\<exists>hi lo more.
         sent (snd (security_unlock b))
           = sent b1 @ \<lparr>arbitration_id = CAN_ID_REQ,
                         data = [0x04, 0x27, 0x02, hi, lo, 0, 0, 0]\<rparr> # more
         \<and> 256 * uint hi + uint lo
             = calc_key_msd80 (int (from_bytes_big (slice seed_r 2 4)))))"
proof (intro conjI impI)
  show "calc_key_msd80 s = ((s XOR 0x5A3C) + 0x7F1B) mod 2 ^ 16"
    by (simp add: calc_key_msd80_def and_ffff)
  show "calc_key_msd80 0x1234 = 0xC723"
    by (simp add: calc_key_msd80_def)
next
  assume a: "Flasher_kwp SID_SECURITY_ACCESS [0x01] True b = (Inr seed_r, b1)
        \<and> \<not> rejected SID_SECURITY_ACCESS seed_r"
  define key where "key = calc_key_msd80 (int (from_bytes_big (slice seed_r 2 4)))"
  define hi :: byte where "hi = of_int (drop_bit 8 key)"
  define lo :: byte where "lo = of_int (key AND 0xFF)"
  have rng: "0 \<le> key" "key < 65536"
    using calc_key_msd80_range [of "int (from_bytes_big (slice seed_r 2 4))"]
    by (simp_all add: key_def)
  then have d: "0 \<le> key div 256" "key div 256 < 256" by simp_all
  have "uint hi = key div 256"
    using d by (simp add: hi_def drop_bit_eq_div uint_word_of_int take_bit_eq_mod)
  moreover have "uint lo = key mod 256"
    by (simp add: lo_def and_ff_int uint_word_of_int take_bit_eq_mod)
  ultimately have val: "256 * uint hi + uint lo = key" by simp
  have un: "snd (security_unlock b)
      = snd (Flasher_kwp SID_SECURITY_ACCESS [0x02, hi, lo] True b1)"
    using a
    by (simp add: security_unlock_def Let_def key_def hi_def lo_def
        split: prod.splits sum.splits)
  have "length [0x02, hi, lo] \<le> 6" by simp
  from Flasher_kwp_single_sent [OF this, of SID_SECURITY_ACCESS b1]
  obtain more where
    "sent (snd (Flasher_kwp SID_SECURITY_ACCESS [0x02, hi, lo] True b1))
       = sent b1 @ single_frame Flasher_tp (SID_SECURITY_ACCESS # [0x02, hi, lo]) # more"
    by blast
  moreover have "single_frame Flasher_tp (SID_SECURITY_ACCESS # [0x02, hi, lo])
      = \<lparr>arbitration_id = CAN_ID_REQ, data = [0x04, 0x27, 0x02, hi, lo, 0, 0, 0]\<rparr>"
    by (simp add: single_frame_def Flasher_tp_def SID_SECURITY_ACCESS_def numeral_eq_Suc)
  ultimately show "\<exists>hi lo more.
         sent (snd (security_unlock b))
           = sent b1 @ \<lparr>arbitration_id = CAN_ID_REQ,
                         data = [0x04, 0x27, 0x02, hi, lo, 0, 0, 0]\<rparr> # more
         \<and> 256 * uint hi + uint lo
             = calc_key_msd80 (int (from_bytes_big (slice seed_r 2 4)))"
    using un val unfolding key_def by metis
qed

lemma seed_exchange:
  "Flasher_kwp SID_SECURITY_ACCESS [0x01] True
     \<lparr>inbox = [Some \<lparr>arbitration_id = 0x6F9, data = [0x04, 0x67, 0x01, 0x12, 0x34, 0, 0, 0]\<rparr>,
               Some \<lparr>arbitration_id = 0x6F9, data = [0x02, 0x67, 0x02, 0, 0, 0, 0, 0]\<rparr>],
      sent = []\<rparr>
   = (Inr [0x67, 0x01, 0x12, 0x34],
      \<lparr>inbox = [Some \<lparr>arbitration_id = 0x6F9, data = [0x02, 0x67, 0x02, 0, 0, 0, 0, 0]\<rparr>],
       sent = [\<lparr>arbitration_id = 0x6F1, data = [0x02, 0x27, 0x01, 0, 0, 0, 0, 0]\<rparr>]\<rparr>)"
  by code_simp

lemma seed_accepted: "\<not> rejected SID_SECURITY_ACCESS [0x67, 0x01, 0x12, 0x34]"
  by code_simp

lemma seed_value: "int (from_bytes_big (slice [0x67, 0x01, 0x12, 0x34] 2 4)) = 0x1234"
  by code_simp

theorem calc_key_msd80_spec_witness:
  "(0 :: int) \<le> 0x1234 \<and> (0x1234 :: int) \<le> 0xFFFF
   \<and> calc_key_msd80 0x1234 = (0x4808 + 0x7F1B) mod 2 ^ 16
   \<and> (\<exists>more. sent (snd (security_unlock
        \<lparr>inbox = [Some \<lparr>arbitration_id = 0x6F9, data = [0x04, 0x67, 0x01, 0x12, 0x34, 0, 0, 0]\<rparr>,
                  Some \<lparr>arbitration_id = 0x6F9, data = [0x02, 0x67, 0x02, 0, 0, 0, 0, 0]\<rparr>],
         sent = []\<rparr>))
      = [\<lparr>arbitration_id = 0x6F1, data = [0x02, 0x27, 0x01, 0, 0, 0, 0, 0]\<rparr>,
         \<lparr>arbitration_id = 0x6F1, data = [0x04, 0x27, 0x02, 0xC7, 0x23, 0, 0, 0]\<rparr>] @ more)"
proof -
  let ?b = "\<lparr>inbox = [Some \<lparr>arbitration_id = 0x6F9, data = [0x04, 0x67, 0x01, 0x12, 0x34, 0, 0, 0]\<rparr>,
                  Some \<lparr>arbitration_id = 0x6F9, data = [0x02, 0x67, 0x02, 0, 0, 0, 0, 0]\<rparr>],
         sent = []\<rparr>"
  note spec = calc_key_msd80_spec [of "0x1234" ?b "[0x67, 0x01, 0x12, 0x34]"]
  have x: "(0x1234 :: int) XOR 0x5A3C = 0x4808" by simp
  from spec have k: "calc_key_msd80 0x1234 = (0x4808 + 0x7F1B) mod 2 ^ 16"
    unfolding x by simp
  from spec seed_exchange seed_accepted obtain hi lo :: byte and more where
    snt: "sent (snd (security_unlock ?b))
       = [\<lparr>arbitration_id = 0x6F1, data = [0x02, 0x27, 0x01, 0, 0, 0, 0, 0]\<rparr>]
         @ \<lparr>arbitration_id = CAN_ID_REQ, data = [0x04, 0x27, 0x02, hi, lo, 0, 0, 0]\<rparr> # more"
    and val: "256 * uint hi + uint lo = calc_key_msd80 0x1234"
    unfolding seed_value by fastforce
  have "uint lo < 256" "0 \<le> uint lo" "uint hi < 256" "0 \<le> uint hi"
    using uint_bounded [of lo] uint_bounded [of hi] by simp_all
  moreover from spec have "calc_key_msd80 0x1234 = 0xC723" by blast
  ultimately have "uint hi = 0xC7 \<and> uint lo = 0x23" using val by presburger
  then have "hi = 0xC7 \<and> lo = 0x23" by (simp add: word_uint_eq_iff)
  with snt k show ?thesis by (simp add: CAN_ID_REQ_def)
qed

subsection \<open>Which errors the transport and a memory read raise\<close>

lemma recv_loop_error:
  "recv_loop tp tot buf s = (Inl e, s') \<Longrightarrow> e = ConsecutiveTimeout"
proof (induction tp tot buf s rule: recv_loop.induct)
  case (1 tp tot buf s)
  show ?case
  proof (cases "length buf < tot")
    case False
    with "1.prems" show ?thesis by (simp add: recv_loop.simps)
  next
    case True
    show ?thesis
    proof (cases "inbox s")
      case Nil
      with True "1.prems" show ?thesis by (simp add: recv_loop.simps)
    next
      case (Cons m rest)
      show ?thesis
      proof (cases m)
        case None
        with True Cons "1.prems" show ?thesis by (auto simp: recv_loop.simps)
      next
        case (Some cf)
        show ?thesis
        proof (cases "arbitration_id cf \<noteq> rx_id tp")
          case True
          with \<open>length buf < tot\<close> Cons Some "1.prems" show ?thesis
            by (auto simp: recv_loop.simps)
        next
          case False
          with \<open>length buf < tot\<close> Cons Some "1.prems"
          have "recv_loop tp tot (buf @ drop 1 (data cf)) (s\<lparr>inbox := rest\<rparr>) = (Inl e, s')"
            by (simp add: recv_loop.simps)
          from "1.IH" [OF \<open>length buf < tot\<close> Cons Some False this]
          show ?thesis .
        qed
      qed
    qed
  qed
qed

lemma IsoTp_recv_error:
  "IsoTp_recv tp raw s = (Inl e, s') \<Longrightarrow> e \<in> {IndexError, ConsecutiveTimeout}"
  by (auto simp: IsoTp_recv_def bus_recv_def Let_def
      split: list.splits option.splits if_splits prod.splits sum.splits
      dest!: recv_loop_error)

lemma flow_control_error: "flow_control e0 fc = Inl e \<Longrightarrow> e \<in> {e0, IndexError}"
  by (auto simp: flow_control_def split: option.splits if_splits)

lemma send_loop_outcome:
  "send_loop tp P ptr sn c bs s = (r, s') \<Longrightarrow>
     (\<exists>more. sent s' = sent s @ more)
     \<and> (\<forall>e. r = Inl e \<longrightarrow> e \<in> {MissingFlowControl, IndexError, ConsecutiveTimeout})"
proof (induction tp P ptr sn c bs s rule: send_loop.induct)
  case (1 tp P ptr sn c bs s)
  show ?case
  proof (cases "ptr < length P")
    case False
    with "1.prems" show ?thesis by (auto simp: send_loop.simps)
  next
    case True
    define chunk where "chunk = slice P ptr (ptr + 7)"
    define cf where
      "cf = [of_nat (0x20 OR (sn AND 0x0F)) :: byte] @ chunk @ replicate (7 - length chunk) 0x00"
    define s1 where "s1 = bus_send \<lparr>arbitration_id = tx_id tp, data = cf\<rparr> s"
    define ptr' where "ptr' = ptr + length chunk"
    define sn' where "sn' = (sn + 1) AND (0x0F::nat)"
    have st1: "\<exists>more. sent s1 = sent s @ more" by (simp add: s1_def bus_send_def)
    show ?thesis
    proof (cases "bs \<noteq> 0 \<and> c + 1 \<ge> bs")
      case False
      then have "send_loop tp P ptr sn c bs s = send_loop tp P ptr' sn' (c + 1) bs s1"
        using True
        by (subst send_loop.simps)
           (auto simp: Let_def chunk_def cf_def s1_def ptr'_def sn'_def)
      with "1.prems" have run: "send_loop tp P ptr' sn' (c + 1) bs s1 = (r, s')" by simp
      from "1.IH"(2) [OF True chunk_def cf_def s1_def ptr'_def sn'_def refl False run]
      show ?thesis using st1 by auto
    next
      case bsT: True
      obtain q s2 where rc: "IsoTp_recv tp True s1 = (q, s2)" by (cases "IsoTp_recv tp True s1")
      have st2: "\<exists>more. sent s2 = sent s @ more"
        using IsoTp_recv_raw_sent [OF rc] st1 by simp
      have unf: "send_loop tp P ptr sn c bs s =
          (case q of Inl e \<Rightarrow> (Inl e, s2)
           | Inr fc \<Rightarrow> (case flow_control MissingFlowControl fc of
                Inl e \<Rightarrow> (Inl e, s2) | Inr bs' \<Rightarrow> send_loop tp P ptr' sn' 0 bs' s2))"
        using True bsT rc
        by (subst send_loop.simps)
           (auto simp: Let_def chunk_def cf_def s1_def ptr'_def sn'_def split: sum.splits)
      show ?thesis
      proof (cases q)
        case (Inl e)
        with unf "1.prems" st2 IsoTp_recv_error [of tp True s1 e s2] rc show ?thesis by auto
      next
        case (Inr fc)
        show ?thesis
        proof (cases "flow_control MissingFlowControl fc")
          case (Inl e)
          with unf \<open>q = Inr fc\<close> "1.prems" st2 flow_control_error [OF Inl] show ?thesis by auto
        next
          case fcr: (Inr bs')
          with unf \<open>q = Inr fc\<close> "1.prems"
          have run: "send_loop tp P ptr' sn' 0 bs' s2 = (r, s')" by simp
          from "1.IH"(1) [OF True chunk_def cf_def s1_def ptr'_def sn'_def refl bsT
              rc [symmetric] \<open>q = Inr fc\<close> fcr run] st2
          show ?thesis by auto
        qed
      qed
    qed
  qed
qed

lemma IsoTp_send_outcome:
  assumes "IsoTp_send tp P s = (r, s')"
  shows "(\<exists>more. sent s' = sent s @ more)
     \<and> (7 < length P \<and> length P \<le> 4095 \<longrightarrow> (\<exists>more. sent s' = sent s @ first_frame tp P # more))
     \<and> (\<forall>e. r = Inl e \<longrightarrow>
           e \<in> {NoFlowControl, MissingFlowControl, IndexError, ConsecutiveTimeout})"
proof (cases "length P \<le> 7")
  case True
  with assms show ?thesis by (auto simp: IsoTp_send_def bus_send_def)
next
  case False
  define s1 where "s1 = bus_send \<lparr>arbitration_id = tx_id tp,
        data = [of_nat (0x10 OR (drop_bit 8 (length P) AND 0x0F)), of_nat (length P AND 0xFF)]
               @ slice P 0 6\<rparr> s"
  have st1: "sent s1 = sent s @ [\<lparr>arbitration_id = tx_id tp,
        data = [of_nat (0x10 OR (drop_bit 8 (length P) AND 0x0F)), of_nat (length P AND 0xFF)]
               @ slice P 0 6\<rparr>]"
    by (simp add: s1_def bus_send_def)
  have ff: "length P \<le> 4095 \<Longrightarrow> sent s1 = sent s @ [first_frame tp P]"
    unfolding st1 first_frame_data [of P tp] by (simp add: first_frame_def)
  obtain q s2 where rc: "IsoTp_recv tp True s1 = (q, s2)" by (cases "IsoTp_recv tp True s1")
  have st2: "sent s2 = sent s1" using IsoTp_recv_raw_sent [OF rc] .
  have unf: "IsoTp_send tp P s =
      (case q of Inl e \<Rightarrow> (Inl e, s2)
       | Inr fc \<Rightarrow> (case flow_control NoFlowControl fc of
            Inl e \<Rightarrow> (Inl e, s2) | Inr bs \<Rightarrow> send_loop tp P 6 1 0 bs s2))"
    using False rc unfolding IsoTp_send_def Let_def s1_def [symmetric] by simp
  show ?thesis
  proof (cases q)
    case (Inl e)
    with unf assms st1 st2 ff IsoTp_recv_error [of tp True s1 e s2] rc show ?thesis by auto
  next
    case (Inr fc)
    show ?thesis
    proof (cases "flow_control NoFlowControl fc")
      case (Inl e)
      with unf \<open>q = Inr fc\<close> assms st1 st2 ff flow_control_error [OF Inl] show ?thesis by auto
    next
      case fcr: (Inr bs)
      with unf \<open>q = Inr fc\<close> assms have run: "send_loop tp P 6 1 0 bs s2 = (r, s')" by simp
      from send_loop_outcome [OF run] st1 st2 ff show ?thesis by auto
    qed
  qed
qed

lemma Flasher_kwp_outcome:
  assumes "Flasher_kwp sid payload True s = (r, s')"
  shows "(\<exists>more. sent s' = sent s @ more)
     \<and> (7 \<le> length payload \<and> length payload < 4095 \<longrightarrow>
          (\<exists>more. sent s' = sent s @ first_frame Flasher_tp (sid # payload) # more))
     \<and> (\<forall>e. r = Inl e \<longrightarrow>
           e \<in> {NoFlowControl, MissingFlowControl, IndexError, ConsecutiveTimeout})"
proof -
  obtain q s1 where sd: "IsoTp_send Flasher_tp (sid # payload) s = (q, s1)"
    by (cases "IsoTp_send Flasher_tp (sid # payload) s")
  note o1 = IsoTp_send_outcome [OF sd]
  show ?thesis
  proof (cases q)
    case (Inl e)
    with assms sd o1 show ?thesis
      by (auto simp: Flasher_kwp_def IsoTp_request_def)
  next
    case (Inr u)
    obtain q2 s2 where rc: "IsoTp_recv Flasher_tp False s1 = (q2, s2)"
      by (cases "IsoTp_recv Flasher_tp False s1")
    from IsoTp_recv_sent [OF rc] obtain m2 where m2: "sent s2 = sent s1 @ m2" by blast
    have s': "s' = s2" and r: "r = (case q2 of Inl e \<Rightarrow> Inl e
        | Inr resp \<Rightarrow> Inr (case resp of None \<Rightarrow> [] | Some x \<Rightarrow> x))"
      using assms sd Inr rc
      by (auto simp: Flasher_kwp_def IsoTp_request_def split: sum.splits)
    have er: "\<forall>e. r = Inl e \<longrightarrow>
           e \<in> {NoFlowControl, MissingFlowControl, IndexError, ConsecutiveTimeout}"
      using r IsoTp_recv_error [of Flasher_tp False s1 _ s2] rc
      by (auto split: sum.splits)
    from o1 m2 s' er show ?thesis by auto
  qed
qed

lemma read_block_outcome:
  assumes "read_block addr len s = (r, s')"
  shows "(\<exists>more. sent s' = sent s @ more)
     \<and> (\<forall>e. r = Inl e \<longrightarrow>
           e \<in> {BlockLengthError, OverflowError, ReadMemoryFailed,
                NoFlowControl, MissingFlowControl, IndexError, ConsecutiveTimeout})"
proof (cases "len \<le> 0 \<or> len > 0xFFFF \<or> \<not> addr < 2 ^ 32")
  case True
  with assms show ?thesis by (auto simp: read_block_def to_bytes4_def split: if_splits)
next
  case False
  then obtain a l where a: "to_bytes4 addr = Inr a" and l: "to_bytes4 len = Inr l"
    by (auto simp: to_bytes4_def)
  obtain q s1 where kw:
    "Flasher_kwp SID_READ_MEMORY_BY_ADDR ([0x24] @ a @ [0x24] @ l) True s = (q, s1)"
    by (cases "Flasher_kwp SID_READ_MEMORY_BY_ADDR ([0x24] @ a @ [0x24] @ l) True s")
  from Flasher_kwp_outcome [OF kw] assms False a l kw show ?thesis
    by (auto simp: read_block_def split: sum.splits if_splits)
qed

subsection \<open>Backup and the session\<close>

lemma backup_loop_outcome:
  "backup_loop chunk addr buf s = (r, w, s') \<Longrightarrow>
     (\<exists>more. sent s' = sent s @ more)
     \<and> (\<forall>e. r = Inl e \<longrightarrow>
           e \<in> {BlockLengthError, OverflowError, ReadMemoryFailed,
                NoFlowControl, MissingFlowControl, IndexError, ConsecutiveTimeout})"
proof (induction chunk addr buf s rule: backup_loop.induct)
  case (1 chunk addr buf s)
  show ?case
  proof (cases "chunk \<noteq> 0 \<and> addr < FLASH_SIZE")
    case False
    with "1.prems" show ?thesis by (auto simp: backup_loop.simps)
  next
    case True
    obtain q s1 where rb: "read_block addr (min chunk (FLASH_SIZE - addr)) s = (q, s1)"
      by (cases "read_block addr (min chunk (FLASH_SIZE - addr)) s")
    note o = read_block_outcome [OF rb]
    show ?thesis
    proof (cases q)
      case (Inl e)
      with True rb "1.prems" o show ?thesis by (auto simp: backup_loop.simps)
    next
      case (Inr d)
      with True rb "1.prems"
      have run: "backup_loop chunk (addr + chunk) (buf @ d) s1 = (r, w, s')"
        by (simp add: backup_loop.simps)
      from "1.IH" [OF True rb [symmetric] Inr run] o show ?thesis by auto
    qed
  qed
qed

lemma read_request_frame:
  "first_frame Flasher_tp
     (SID_READ_MEMORY_BY_ADDR # [0x24] @ [0, 0, 0, 0] @ [0x24] @ [0, 0, 0x04, 0])
   = \<lparr>arbitration_id = 0x6F1, data = [0x10, 0x0B, 0x23, 0x24, 0, 0, 0, 0]\<rparr>"
  by code_simp

lemma read_block_first_request:
  assumes "read_block 0 0x0400 s = (q, s1)"
  shows "\<exists>more. sent s1
     = sent s @ \<lparr>arbitration_id = 0x6F1, data = [0x10, 0x0B, 0x23, 0x24, 0, 0, 0, 0]\<rparr> # more"
proof -
  have a: "to_bytes4 0 = Inr [0, 0, 0, 0]" and l: "to_bytes4 0x0400 = Inr [0, 0, 0x04, 0]"
    by (simp_all add: to_bytes4_def)
  let ?p = "[0x24] @ [0, 0, 0, 0] @ [0x24] @ [0, 0, 0x04, 0 :: byte]"
  obtain r s2 where kw: "Flasher_kwp SID_READ_MEMORY_BY_ADDR ?p True s = (r, s2)"
    by (cases "Flasher_kwp SID_READ_MEMORY_BY_ADDR ?p True s")
  have "s1 = s2"
    using assms kw a l by (auto simp: read_block_def split: sum.splits if_splits)
  moreover have "7 \<le> length ?p \<and> length ?p < 4095" by simp
  with Flasher_kwp_outcome [OF kw]
  have "\<exists>more. sent s2 = sent s @ first_frame Flasher_tp (SID_READ_MEMORY_BY_ADDR # ?p) # more"
    by blast
  ultimately show ?thesis unfolding read_request_frame by simp
qed

text \<open>
  C9, as the code has it. A Flasher carries no session state and \<open>backup\<close> tests none:
  from any state of the bus, so also on a Flasher on which neither \<open>enter_session\<close> nor
  \<open>security_unlock\<close> has run, \<open>backup\<close> with the default chunk first sends the First
  frame of the ReadMemoryByAddress request for address 0 and length \<open>0x0400\<close>, and it
  never fails with SessionError: its errors are those of \<open>read_block\<close>.
\<close>

theorem backup_no_state_guard:
  "(\<exists>more. sent (snd (snd (backup 0x0400 s)))
      = sent s @ \<lparr>arbitration_id = 0x6F1, data = [0x10, 0x0B, 0x23, 0x24, 0, 0, 0, 0]\<rparr> # more)
   \<and> fst (backup chunk s) \<noteq> Inl SessionError
   \<and> (\<forall>e. fst (backup chunk s) = Inl e \<longrightarrow>
         e \<in> {RangeStepZero, BlockLengthError, OverflowError, ReadMemoryFailed,
              NoFlowControl, MissingFlowControl, IndexError, ConsecutiveTimeout})"
proof (intro conjI)
  obtain q s1 where rb: "read_block 0 0x0400 s = (q, s1)" by (cases "read_block 0 0x0400 s")
  from read_block_first_request [OF rb] obtain m1 where
    m1: "sent s1 = sent s @ \<lparr>arbitration_id = 0x6F1,
           data = [0x10, 0x0B, 0x23, 0x24, 0, 0, 0, 0]\<rparr> # m1"
    by blast
  have unf: "backup 0x0400 s = (case q of Inl e \<Rightarrow> (Inl e, [], s1)
      | Inr d \<Rightarrow> backup_loop 0x0400 (0 + 0x0400) ([] @ d) s1)"
    using rb by (simp add: backup_def backup_loop.simps [of _ 0] FLASH_SIZE_def split: sum.splits)
  show "\<exists>more. sent (snd (snd (backup 0x0400 s)))
      = sent s @ \<lparr>arbitration_id = 0x6F1, data = [0x10, 0x0B, 0x23, 0x24, 0, 0, 0, 0]\<rparr> # more"
  proof (cases q)
    case (Inl e)
    with unf m1 show ?thesis by simp
  next
    case (Inr d)
    obtain r w s' where run: "backup_loop 0x0400 (0 + 0x0400) ([] @ d) s1 = (r, w, s')"
      by (cases "backup_loop 0x0400 (0 + 0x0400) ([] @ d) s1")
    from backup_loop_outcome [OF run] obtain m2 where "sent s' = sent s1 @ m2" by blast
    with unf Inr run m1 show ?thesis by simp
  qed
next
  have er: "\<forall>e. fst (backup chunk s) = Inl e \<longrightarrow>
         e \<in> {RangeStepZero, BlockLengthError, OverflowError, ReadMemoryFailed,
              NoFlowControl, MissingFlowControl, IndexError, ConsecutiveTimeout}"
  proof (cases "chunk = 0")
    case True
    then show ?thesis by (simp add: backup_def)
  next
    case False
    obtain r w s' where run: "backup_loop chunk 0 [] s = (r, w, s')"
      by (cases "backup_loop chunk 0 [] s")
    from backup_loop_outcome [OF run] False run show ?thesis by (auto simp: backup_def)
  qed
  then show "\<forall>e. fst (backup chunk s) = Inl e \<longrightarrow>
         e \<in> {RangeStepZero, BlockLengthError, OverflowError, ReadMemoryFailed,
              NoFlowControl, MissingFlowControl, IndexError, ConsecutiveTimeout}" .
  from er show "fst (backup chunk s) \<noteq> Inl SessionError" by auto
qed

theorem backup_no_state_guard_witness:
  "(\<exists>more. sent (snd (snd (backup 0x0400 \<lparr>inbox = [], sent = []\<rparr>)))
      = \<lparr>arbitration_id = 0x6F1, data = [0x10, 0x0B, 0x23, 0x24, 0, 0, 0, 0]\<rparr> # more)
   \<and> fst (backup 0x0400 \<lparr>inbox = [], sent = []\<rparr>) \<noteq> Inl SessionError"
  using backup_no_state_guard [of "\<lparr>inbox = [], sent = []\<rparr>" "0x0400"] by simp

lemma read_block_unanswered:
  "read_block 0 0x0400 \<lparr>inbox = [], sent = []\<rparr>
     = (Inl NoFlowControl,
        \<lparr>inbox = [],
         sent = [\<lparr>arbitration_id = 0x6F1, data = [0x10, 0x0B, 0x23, 0x24, 0, 0, 0, 0]\<rparr>]\<rparr>)"
proof -
  let ?p = "SID_READ_MEMORY_BY_ADDR # [0x24] @ [0, 0, 0, 0] @ [0x24] @ [0, 0, 0x04, 0 :: byte]"
  have "length ?p \<le> 4095" by simp
  note ff = first_frame_data [OF this, of Flasher_tp, unfolded read_request_frame]
  have "IsoTp_send Flasher_tp ?p \<lparr>inbox = [], sent = []\<rparr>
      = (Inl NoFlowControl, \<lparr>inbox = [], sent =
          [\<lparr>arbitration_id = 0x6F1, data = [0x10, 0x0B, 0x23, 0x24, 0, 0, 0, 0]\<rparr>]\<rparr>)"
    unfolding IsoTp_send_def Let_def ff
    by (simp add: bus_send_def IsoTp_recv_def bus_recv_def flow_control_def Flasher_tp_def
        CAN_ID_REQ_def)
  moreover have "to_bytes4 0 = Inr [0, 0, 0, 0]" "to_bytes4 0x0400 = Inr [0, 0, 0x04, 0]"
    by (simp_all add: to_bytes4_def)
  ultimately show ?thesis
    by (simp add: read_block_def Flasher_kwp_def IsoTp_request_def)
qed

theorem backup_no_state_guard_counterexample:
  "backup 0x0400 \<lparr>inbox = [], sent = []\<rparr>
     = (Inl NoFlowControl, [],
        \<lparr>inbox = [],
         sent = [\<lparr>arbitration_id = 0x6F1, data = [0x10, 0x0B, 0x23, 0x24, 0, 0, 0, 0]\<rparr>]\<rparr>)
   \<and> Inl NoFlowControl \<noteq> (Inl SessionError :: error + unit)"
  by (simp add: backup_def backup_loop.simps [of _ 0] FLASH_SIZE_def read_block_unanswered)









subsection \<open>Verification\<close>






subsection \<open>RequestDownload and the block size\<close>








subsection \<open>VIN patch\<close>

subsection \<open>Searching and summing\<close>

lemma occurs_at_Nil: "occurs_at sub [] i \<longleftrightarrow> sub = [] \<and> i = 0"
  by (auto simp: occurs_at_def)

lemma occurs_at_Cons_0: "occurs_at sub (x # xs) 0 \<longleftrightarrow> take (length sub) (x # xs) = sub"
proof
  assume "take (length sub) (x # xs) = sub"
  then have "length (take (length sub) (x # xs)) = length sub" by simp
  then have "length sub \<le> length (x # xs)" by (simp only: length_take min_def split: if_splits)
  with \<open>take (length sub) (x # xs) = sub\<close> show "occurs_at sub (x # xs) 0"
    by (simp add: occurs_at_def)
qed (simp add: occurs_at_def)

lemma occurs_at_Cons_Suc: "occurs_at sub (x # xs) (Suc i) \<longleftrightarrow> occurs_at sub xs i"
  by (simp add: occurs_at_def)

lemma find_first_None: "find_first sub xs = None \<longleftrightarrow> (\<forall>i. \<not> occurs_at sub xs i)"
proof (induction xs)
  case Nil
  show ?case by (auto simp: occurs_at_Nil)
next
  case (Cons x xs)
  show ?case
  proof (cases "take (length sub) (x # xs) = sub")
    case True
    then have "occurs_at sub (x # xs) 0" by (simp add: occurs_at_Cons_0)
    with True show ?thesis by auto
  next
    case False
    have "(\<forall>i. \<not> occurs_at sub (x # xs) i) \<longleftrightarrow> (\<forall>i. \<not> occurs_at sub xs i)"
    proof
      assume a: "\<forall>i. \<not> occurs_at sub (x # xs) i"
      show "\<forall>i. \<not> occurs_at sub xs i"
      proof
        fix i
        from a have "\<not> occurs_at sub (x # xs) (Suc i)" by blast
        then show "\<not> occurs_at sub xs i" by (simp add: occurs_at_Cons_Suc)
      qed
    next
      assume a: "\<forall>i. \<not> occurs_at sub xs i"
      show "\<forall>i. \<not> occurs_at sub (x # xs) i"
      proof
        fix i
        show "\<not> occurs_at sub (x # xs) i"
          using a False by (cases i) (simp_all add: occurs_at_Cons_0 occurs_at_Cons_Suc)
      qed
    qed
    with False Cons.IH show ?thesis by simp
  qed
qed

lemma find_first_Some:
  "find_first sub xs = Some i \<Longrightarrow> occurs_at sub xs i \<and> (\<forall>j < i. \<not> occurs_at sub xs j)"
proof (induction xs arbitrary: i)
  case Nil
  then show ?case by (auto simp: occurs_at_Nil split: if_splits)
next
  case (Cons x xs)
  show ?case
  proof (cases "take (length sub) (x # xs) = sub")
    case True
    with Cons.prems have "i = 0" by simp
    with True show ?thesis by (simp add: occurs_at_Cons_0)
  next
    case False
    with Cons.prems obtain k where k: "find_first sub xs = Some k" and i: "i = Suc k"
      by auto
    from Cons.IH [OF k] have o: "occurs_at sub xs k" and m: "\<forall>j < k. \<not> occurs_at sub xs j"
      by blast+
    have "\<forall>j < i. \<not> occurs_at sub (x # xs) j"
    proof (intro allI impI)
      fix j
      assume "j < i"
      then show "\<not> occurs_at sub (x # xs) j"
        using False m i by (cases j) (simp_all add: occurs_at_Cons_0 occurs_at_Cons_Suc)
    qed
    with o i show ?thesis by (simp add: occurs_at_Cons_Suc)
  qed
qed

lemma bytes_find_not_found:
  "bytes_find xs sub = - 1 \<longleftrightarrow> (\<forall>i. \<not> occurs_at sub xs i)"
  by (simp add: bytes_find_def find_first_None [symmetric] split: option.splits)

lemma bytes_find_found:
  assumes "bytes_find xs sub \<noteq> - 1"
  shows "occurs_at sub xs (nat (bytes_find xs sub))
     \<and> (\<forall>j < nat (bytes_find xs sub). \<not> occurs_at sub xs j)"
proof -
  from assms obtain i where f: "find_first sub xs = Some i"
    by (auto simp: bytes_find_def split: option.splits)
  then have "nat (bytes_find xs sub) = i" by (simp add: bytes_find_def)
  with find_first_Some [OF f] show ?thesis by simp
qed

lemma words_be_snoc:
  "even (length bs) \<Longrightarrow> words_be (bs @ [hi, lo]) = words_be bs @ [256 * uint hi + uint lo]"
  by (induction bs rule: words_be.induct) simp_all

lemma to_bytes2_word:
  assumes "0 \<le> c" and "c < 65536"
  shows "\<exists>hi lo. to_bytes2 c = [hi, lo] \<and> 256 * uint hi + uint lo = c"
proof -
  have d: "0 \<le> c div 256" "c div 256 < 256" using assms by simp_all
  have "uint (of_int (c div 256) :: byte) = c div 256"
    using d by (simp add: uint_word_of_int take_bit_eq_mod)
  moreover have "uint (of_int c :: byte) = c mod 256"
    by (simp add: uint_word_of_int take_bit_eq_mod)
  ultimately show ?thesis by (simp add: to_bytes2_def)
qed

lemma checksum_word:
  "(- (s AND 0xFFFF)) AND 0xFFFF = (- s) mod 65536"
  "0 \<le> (- (s AND 0xFFFF)) AND (0xFFFF :: int)"
  "(- (s AND 0xFFFF)) AND 0xFFFF < (65536 :: int)"
  by (simp_all add: and_ffff mod_minus_eq)

subsection \<open>The checksum word and the patched image\<close>

lemma fix_cal_checksum_image:
  assumes "buf < length h" and "length (h ! buf) = FLASH_SIZE"
  shows "\<exists>hi lo. fix_cal_checksum h buf
           = (Inr (), h[buf := take (CAL_END - 2) (h ! buf) @ [hi, lo] @ drop CAL_END (h ! buf)])
         \<and> 256 * uint hi + uint lo
             = (- sum_list (words_be (slice (h ! buf) CAL_START (CAL_END - 2)))) mod 65536"
proof -
  let ?B = "h ! buf"
  let ?cal = "slice ?B CAL_START CAL_END"
  let ?ws = "words_be (slice ?B CAL_START (CAL_END - 2))"
  let ?c = "(- (sum_list ?ws AND 0xFFFF)) AND 0xFFFF"
  have lc: "length ?cal = 0x40000"
    using assms(2) by (simp add: slice_def CAL_START_def CAL_END_def CAL_SIZE_def FLASH_SIZE_def)
  have tk: "take (length ?cal - 2) ?cal = slice ?B CAL_START (CAL_END - 2)"
    unfolding lc by (simp add: slice_def CAL_START_def CAL_END_def CAL_SIZE_def)
  have ev: "\<not> odd (length (slice ?B CAL_START (CAL_END - 2)))"
    using assms(2) by (simp add: slice_def CAL_START_def CAL_END_def CAL_SIZE_def FLASH_SIZE_def)
  have un: "iter_unpack_H (take (length ?cal - 2) ?cal) = Inr ?ws"
    unfolding tk using ev by (simp add: iter_unpack_H_def)
  from to_bytes2_word [OF checksum_word(2,3), of "sum_list ?ws"]
  obtain hi lo where tb: "to_bytes2 ?c = [hi, lo]" and v: "256 * uint hi + uint lo = ?c"
    by blast
  have sa: "slice_assign ?B (CAL_END - 2) CAL_END [hi, lo]
      = take (CAL_END - 2) ?B @ [hi, lo] @ drop CAL_END ?B"
    using assms(2)
    by (simp add: slice_assign_def Let_def CAL_START_def CAL_END_def CAL_SIZE_def FLASH_SIZE_def)
  have "fix_cal_checksum h buf
      = (Inr (), h[buf := take (CAL_END - 2) ?B @ [hi, lo] @ drop CAL_END ?B])"
    unfolding fix_cal_checksum_def Let_def un by (simp add: tb sa)
  moreover have "256 * uint hi + uint lo = (- sum_list ?ws) mod 65536"
    using v by (simp add: checksum_word(1))
  ultimately show ?thesis by blast
qed

lemma cal_words_fixed:
  assumes "length B = FLASH_SIZE"
  shows "cal_words (take (CAL_END - 2) B @ [hi, lo] @ drop CAL_END B)
     = words_be (slice B CAL_START (CAL_END - 2)) @ [256 * uint hi + uint lo]"
proof -
  have "slice (take (CAL_END - 2) B @ [hi, lo] @ drop CAL_END B) CAL_START CAL_END
      = slice B CAL_START (CAL_END - 2) @ [hi, lo]"
    using assms
    by (simp add: slice_def CAL_START_def CAL_END_def CAL_SIZE_def FLASH_SIZE_def drop_take)
  moreover have "even (length (slice B CAL_START (CAL_END - 2)))"
    using assms by (simp add: slice_def CAL_START_def CAL_END_def CAL_SIZE_def FLASH_SIZE_def)
  ultimately show ?thesis by (simp add: cal_words_def words_be_snoc)
qed

lemma vin_write_identity:
  assumes "occurs_at vb (slice B CAL_START CAL_END) i" and "length vb = 17"
  shows "slice_assign B (CAL_START + i) (CAL_START + i + 17) vb = B"
proof -
  from assms have le: "i + 17 \<le> length (slice B CAL_START CAL_END)"
    and tk: "take 17 (drop i (slice B CAL_START CAL_END)) = vb"
    by (simp_all add: occurs_at_def)
  from le have b: "CAL_START + i + 17 \<le> length B" by (simp add: slice_def; arith)
  from le have n: "17 \<le> CAL_END - CAL_START - i" by (simp add: slice_def; arith)
  have "take 17 (drop i (slice B CAL_START CAL_END))
      = take (min 17 (CAL_END - CAL_START - i)) (drop (CAL_START + i) B)"
    by (simp add: slice_def drop_take add.commute)
  also have "\<dots> = take 17 (drop (CAL_START + i) B)" using n by (simp only: min_absorb1)
  finally have "take 17 (drop i (slice B CAL_START CAL_END)) = take 17 (drop (CAL_START + i) B)" .
  with tk have "take 17 (drop (CAL_START + i) B) = vb" by simp
  then have "take (CAL_START + i) B @ vb @ drop (CAL_START + i + 17) B
      = take (CAL_START + i) B @ take 17 (drop (CAL_START + i) B)
        @ drop 17 (drop (CAL_START + i) B)"
    by (simp add: add.commute)
  also have "\<dots> = B" by (simp only: append_take_drop_id)
  finally show ?thesis using b by (simp add: slice_assign_def Let_def)
qed

lemma encode_ascii_length: "encode_ascii v = Inr vb \<Longrightarrow> length vb = length v"
  by (auto simp: encode_ascii_def split: if_splits)

lemma patch_vin_image:
  assumes "length (h ! img) = FLASH_SIZE" and "length v = 17" and "encode_ascii v = Inr vb"
    and "occurs_at vb (slice (h ! img) CAL_START CAL_END) k"
  shows "\<exists>i hi lo.
      occurs_at vb (slice (h ! img) CAL_START CAL_END) i
      \<and> (\<forall>j < i. \<not> occurs_at vb (slice (h ! img) CAL_START CAL_END) j)
      \<and> patch_vin h img v
          = (Inr (take (CAL_END - 2) (h ! img) @ [hi, lo] @ drop CAL_END (h ! img)),
             h @ [take (CAL_END - 2) (h ! img) @ [hi, lo] @ drop CAL_END (h ! img)])
      \<and> 256 * uint hi + uint lo
          = (- sum_list (words_be (slice (h ! img) CAL_START (CAL_END - 2)))) mod 65536"
proof -
  let ?B = "h ! img"
  let ?cal = "slice ?B CAL_START CAL_END"
  let ?h1 = "h @ [?B]"
  have nf: "bytes_find ?cal vb \<noteq> - 1"
    using assms(4) by (auto simp: bytes_find_not_found)
  define i where "i = nat (bytes_find ?cal vb)"
  from bytes_find_found [OF nf] have o: "occurs_at vb ?cal i"
    and m: "\<forall>j < i. \<not> occurs_at vb ?cal j"
    by (simp_all add: i_def)
  have lv: "length vb = 17" using encode_ascii_length [OF assms(3)] assms(2) by simp
  have wr: "slice_assign ?B (CAL_START + i) (CAL_START + i + 17) vb = ?B"
    using o lv by (rule vin_write_identity)
  have h2: "?h1[length h := ?B] = ?h1" by simp
  have b1: "length h < length ?h1" and b2: "length (?h1 ! length h) = FLASH_SIZE"
    using assms(1) by simp_all
  from fix_cal_checksum_image [OF b1 b2] obtain hi lo where
    fx: "fix_cal_checksum ?h1 (length h)
      = (Inr (), ?h1[length h := take (CAL_END - 2) ?B @ [hi, lo] @ drop CAL_END ?B])"
    and v: "256 * uint hi + uint lo
      = (- sum_list (words_be (slice ?B CAL_START (CAL_END - 2)))) mod 65536"
    by auto
  have "patch_vin h img v
      = (Inr (take (CAL_END - 2) ?B @ [hi, lo] @ drop CAL_END ?B),
         h @ [take (CAL_END - 2) ?B @ [hi, lo] @ drop CAL_END ?B])"
    using assms(2,3) nf
    by (simp add: patch_vin_def bytearray_def Let_def i_def [symmetric] wr h2 fx)
  with o m v show ?thesis by blast
qed

text \<open>
  The image of the witnesses below: 1 MiB of zero bytes with the VIN
  \<open>WBAPM7C50AE192600\<close> at the start of the calibration region.
\<close>

lemma example_vin_ascii:
  "encode_ascii [87, 66, 65, 80, 77, 55, 67, 53, 48, 65, 69, 49, 57, 50, 54, 48, 48]
   = Inr [87, 66, 65, 80, 77, 55, 67, 53, 48, 65, 69, 49, 57, 50, 54, 48, 48]"
  by (simp add: encode_ascii_def)

lemma example_image_length:
  "length (replicate 0x10000 (0 :: byte)
           @ [87, 66, 65, 80, 77, 55, 67, 53, 48, 65, 69, 49, 57, 50, 54, 48, 48]
           @ replicate 0xEFFEF 0) = FLASH_SIZE"
  by (simp add: FLASH_SIZE_def)

lemma example_image_vin:
  "occurs_at [87, 66, 65, 80, 77, 55, 67, 53, 48, 65, 69, 49, 57, 50, 54, 48, 48]
     (slice (replicate 0x10000 (0 :: byte)
             @ [87, 66, 65, 80, 77, 55, 67, 53, 48, 65, 69, 49, 57, 50, 54, 48, 48]
             @ replicate 0xEFFEF 0) CAL_START CAL_END) 0"
  by (simp add: occurs_at_def slice_def CAL_START_def CAL_END_def CAL_SIZE_def)

text \<open>
  C3. For every 1 MiB image that holds the bytes of the 17-character VIN \<open>v\<close> in its
  calibration region, \<open>patch_vin\<close> returns an image whose calibration region, read as
  16-bit big-endian words, sums to 0 modulo \<open>2 ^ 16\<close>: its last word is \<open>(-S) mod 2 ^ 16\<close>
  for the sum \<open>S\<close> of the words before it.
\<close>

theorem patch_vin_checksum:
  assumes "length (h ! img) = FLASH_SIZE" and "length v = 17" and "encode_ascii v = Inr vb"
    and "occurs_at vb (slice (h ! img) CAL_START CAL_END) k"
  shows "\<exists>out h'. patch_vin h img v = (Inr out, h')
     \<and> sum_list (cal_words out) mod 2 ^ 16 = 0
     \<and> cal_words out \<noteq> []
     \<and> last (cal_words out) = (- sum_list (butlast (cal_words out))) mod 2 ^ 16"
proof -
  let ?B = "h ! img"
  let ?ws = "words_be (slice ?B CAL_START (CAL_END - 2))"
  from patch_vin_image [OF assms] obtain hi lo where
    run: "patch_vin h img v
          = (Inr (take (CAL_END - 2) ?B @ [hi, lo] @ drop CAL_END ?B),
             h @ [take (CAL_END - 2) ?B @ [hi, lo] @ drop CAL_END ?B])"
    and c: "256 * uint hi + uint lo = (- sum_list ?ws) mod 65536"
    by blast
  let ?out = "take (CAL_END - 2) ?B @ [hi, lo] @ drop CAL_END ?B"
  have cw: "cal_words ?out = ?ws @ [(- sum_list ?ws) mod 65536]"
    using cal_words_fixed [OF assms(1), of hi lo] c by simp
  have "sum_list (cal_words ?out) mod 2 ^ 16 = (sum_list ?ws + (- sum_list ?ws) mod 65536) mod 65536"
    unfolding cw by simp
  also have "\<dots> = 0" by (simp add: mod_add_right_eq)
  finally have z: "sum_list (cal_words ?out) mod 2 ^ 16 = 0" .
  have ne: "cal_words ?out \<noteq> []"
    and la: "last (cal_words ?out) = (- sum_list (butlast (cal_words ?out))) mod 2 ^ 16"
    unfolding cw by simp_all
  show ?thesis
    by (rule exI [of _ ?out], rule exI [of _ "h @ [?out]"], intro conjI)
       (rule run, rule z, rule ne, rule la)
qed

theorem patch_vin_checksum_witness:
  "\<exists>out h'. patch_vin
       [replicate 0x10000 0
        @ [87, 66, 65, 80, 77, 55, 67, 53, 48, 65, 69, 49, 57, 50, 54, 48, 48]
        @ replicate 0xEFFEF 0] 0
       [87, 66, 65, 80, 77, 55, 67, 53, 48, 65, 69, 49, 57, 50, 54, 48, 48] = (Inr out, h')
     \<and> sum_list (cal_words out) mod 2 ^ 16 = 0
     \<and> cal_words out \<noteq> []
     \<and> last (cal_words out) = (- sum_list (butlast (cal_words out))) mod 2 ^ 16"
proof -
  let ?I = "replicate 0x10000 (0 :: byte)
        @ [87, 66, 65, 80, 77, 55, 67, 53, 48, 65, 69, 49, 57, 50, 54, 48, 48]
        @ replicate 0xEFFEF 0"
  have l: "length ([?I] ! 0) = FLASH_SIZE" using example_image_length by simp
  have n: "length [87, 66, 65, 80, 77, 55, 67, 53, 48, 65, 69, 49, 57, 50, 54, 48, 48 :: nat] = 17"
    by simp
  have o: "occurs_at [87, 66, 65, 80, 77, 55, 67, 53, 48, 65, 69, 49, 57, 50, 54, 48, 48]
      (slice ([?I] ! 0) CAL_START CAL_END) 0"
    using example_image_vin by simp
  show ?thesis by (rule patch_vin_checksum [OF l n example_vin_ascii o])
qed

text \<open>
  C10. For every 1 MiB image that holds the bytes of the 17-character VIN in its
  calibration region, \<open>patch_vin\<close> returns a new object, of the length of the input, and
  leaves the input object as it was. A byte of the result that differs from the input lies
  in the calibration region, among the 17 bytes at the first occurrence of the VIN or the
  last 2 bytes of the region.
\<close>

theorem patch_vin_frame:
  assumes "img < length h"
    and "length (h ! img) = FLASH_SIZE" and "length v = 17" and "encode_ascii v = Inr vb"
    and "occurs_at vb (slice (h ! img) CAL_START CAL_END) k"
  shows "\<exists>out i. patch_vin h img v = (Inr out, h @ [out])
     \<and> (h @ [out]) ! img = h ! img
     \<and> length out = length (h ! img)
     \<and> occurs_at vb (slice (h ! img) CAL_START CAL_END) i
     \<and> (\<forall>j < i. \<not> occurs_at vb (slice (h ! img) CAL_START CAL_END) j)
     \<and> (\<forall>j < length out. out ! j \<noteq> (h ! img) ! j \<longrightarrow>
           CAL_START \<le> j \<and> j < CAL_END
           \<and> ((CAL_START + i \<le> j \<and> j < CAL_START + i + 17) \<or> CAL_END - 2 \<le> j))"
proof -
  let ?B = "h ! img"
  from patch_vin_image [OF assms(2-5)] obtain i hi lo where
    o: "occurs_at vb (slice ?B CAL_START CAL_END) i"
    and m: "\<forall>j < i. \<not> occurs_at vb (slice ?B CAL_START CAL_END) j"
    and run: "patch_vin h img v
          = (Inr (take (CAL_END - 2) ?B @ [hi, lo] @ drop CAL_END ?B),
             h @ [take (CAL_END - 2) ?B @ [hi, lo] @ drop CAL_END ?B])"
    by blast
  let ?out = "take (CAL_END - 2) ?B @ [hi, lo] @ drop CAL_END ?B"
  have same: "(h @ [?out]) ! img = ?B" using assms(1) by (simp add: nth_append)
  have len: "length ?out = length ?B"
    using assms(2) by (simp add: CAL_START_def CAL_END_def CAL_SIZE_def FLASH_SIZE_def)
  have fr: "\<forall>j < length ?out. ?out ! j \<noteq> ?B ! j \<longrightarrow>
           CAL_START \<le> j \<and> j < CAL_END
           \<and> ((CAL_START + i \<le> j \<and> j < CAL_START + i + 17) \<or> CAL_END - 2 \<le> j)"
  proof (intro allI impI)
    fix j
    assume j: "j < length ?out" and d: "?out ! j \<noteq> ?B ! j"
    have "CAL_END - 2 \<le> j \<and> j < CAL_END"
    proof (rule ccontr)
      assume "\<not> (CAL_END - 2 \<le> j \<and> j < CAL_END)"
      then consider "j < CAL_END - 2" | "CAL_END \<le> j" by linarith
      then have "?out ! j = ?B ! j"
      proof cases
        case 1
        then show ?thesis
          using assms(2)
          by (simp add: nth_append CAL_START_def CAL_END_def CAL_SIZE_def FLASH_SIZE_def)
      next
        case 2
        then show ?thesis
          using assms(2) j len
          by (simp add: nth_append CAL_START_def CAL_END_def CAL_SIZE_def FLASH_SIZE_def)
      qed
      with d show False by simp
    qed
    then show "CAL_START \<le> j \<and> j < CAL_END
           \<and> ((CAL_START + i \<le> j \<and> j < CAL_START + i + 17) \<or> CAL_END - 2 \<le> j)"
      by (simp add: CAL_START_def CAL_END_def CAL_SIZE_def)
  qed
  show ?thesis
    by (rule exI [of _ ?out], rule exI [of _ i], intro conjI)
       (rule run, rule same, rule len, rule o, rule m, rule fr)
qed

theorem patch_vin_frame_witness:
  "\<exists>out i. patch_vin
       [replicate 0x10000 0
        @ [87, 66, 65, 80, 77, 55, 67, 53, 48, 65, 69, 49, 57, 50, 54, 48, 48]
        @ replicate 0xEFFEF 0] 0
       [87, 66, 65, 80, 77, 55, 67, 53, 48, 65, 69, 49, 57, 50, 54, 48, 48]
       = (Inr out,
          [replicate 0x10000 0
           @ [87, 66, 65, 80, 77, 55, 67, 53, 48, 65, 69, 49, 57, 50, 54, 48, 48]
           @ replicate 0xEFFEF 0, out])
     \<and> length out = 0x100000"
proof -
  let ?I = "replicate 0x10000 (0 :: byte)
        @ [87, 66, 65, 80, 77, 55, 67, 53, 48, 65, 69, 49, 57, 50, 54, 48, 48]
        @ replicate 0xEFFEF 0"
  let ?v = "[87, 66, 65, 80, 77, 55, 67, 53, 48, 65, 69, 49, 57, 50, 54, 48, 48 :: nat]"
  have r: "(0 :: nat) < length [?I]" by simp
  have l: "length ([?I] ! 0) = FLASH_SIZE" using example_image_length by simp
  have n: "length ?v = 17" by simp
  have o: "occurs_at [87, 66, 65, 80, 77, 55, 67, 53, 48, 65, 69, 49, 57, 50, 54, 48, 48]
      (slice ([?I] ! 0) CAL_START CAL_END) 0"
    using example_image_vin by simp
  from patch_vin_frame [OF r l n example_vin_ascii o] obtain out i where
    "patch_vin [?I] 0 ?v = (Inr out, [?I] @ [out])" and "length out = length ([?I] ! 0)"
    by blast
  then have "patch_vin [?I] 0 ?v = (Inr out, [?I, out]) \<and> length out = 0x100000"
    using l by (simp add: FLASH_SIZE_def)
  then show ?thesis by blast
qed

lemma encode_ascii_cases:
  "encode_ascii v = (if \<forall>c \<in> set v. c < 128 then Inr (map of_nat v) else Inl UnicodeEncodeError)"
  by (simp add: encode_ascii_def list_all_iff)

lemma fix_cal_checksum_error: "fix_cal_checksum h buf = (Inl e, h') \<Longrightarrow> e = StructError"
  by (auto simp: fix_cal_checksum_def iter_unpack_H_def Let_def split: if_splits)

lemma patch_vin_outcome:
  assumes "length v = 17"
  shows "fst (patch_vin h img v)
     = (case encode_ascii v of
          Inl e \<Rightarrow> Inl e
        | Inr vb \<Rightarrow>
            if bytes_find (slice (h ! img) CAL_START CAL_END) vb = - 1 then Inl VinNotFound
            else fst (patch_vin h img v))"
  and "encode_ascii v = Inr vb \<Longrightarrow> bytes_find (slice (h ! img) CAL_START CAL_END) vb \<noteq> - 1
     \<Longrightarrow> fst (patch_vin h img v) = Inl StructError \<or> (\<exists>out. fst (patch_vin h img v) = Inr out)"
proof -
  show "fst (patch_vin h img v)
     = (case encode_ascii v of
          Inl e \<Rightarrow> Inl e
        | Inr vb \<Rightarrow>
            if bytes_find (slice (h ! img) CAL_START CAL_END) vb = - 1 then Inl VinNotFound
            else fst (patch_vin h img v))"
    using assms by (simp add: patch_vin_def bytearray_def Let_def split: sum.splits)
next
  assume e: "encode_ascii v = Inr vb"
    and f: "bytes_find (slice (h ! img) CAL_START CAL_END) vb \<noteq> - 1"
  let ?h2 = "(h @ [h ! img])[length h := slice_assign (h ! img)
       (CAL_START + nat (bytes_find (slice (h ! img) CAL_START CAL_END) vb))
       (CAL_START + nat (bytes_find (slice (h ! img) CAL_START CAL_END) vb) + 17) vb]"
  obtain r h3 where fx: "fix_cal_checksum ?h2 (length h) = (r, h3)"
    by (cases "fix_cal_checksum ?h2 (length h)")
  have "fst (patch_vin h img v) = (case r of Inl e \<Rightarrow> Inl e | Inr u \<Rightarrow> Inr (h3 ! length h))"
    using assms e f fx
    by (simp add: patch_vin_def bytearray_def Let_def split: sum.splits)
  then show "fst (patch_vin h img v) = Inl StructError \<or> (\<exists>out. fst (patch_vin h img v) = Inr out)"
    using fix_cal_checksum_error [of ?h2 "length h" _ h3] fx
    by (cases r) auto
qed

text \<open>
  C8, as the code has it. \<open>patch_vin\<close> fails with InvalidVin exactly when the VIN does not
  have 17 characters. A VIN of 17 characters, one of them not ASCII, fails in
  \<open>encode("ascii")\<close> with UnicodeEncodeError. A VIN of 17 ASCII characters fails with
  VinNotFound exactly when its bytes do not occur in the calibration region of the image;
  when they occur and the image has 1 MiB, \<open>patch_vin\<close> succeeds: the result is the image
  with the 17 bytes written at the first occurrence and then the two checksum bytes
  written at the end of the region.
\<close>

theorem patch_vin_failures:
  "(fst (patch_vin h img v) = Inl InvalidVin \<longleftrightarrow> length v \<noteq> 17)
   \<and> (length v = 17 \<and> (\<exists>c \<in> set v. 128 \<le> c) \<longrightarrow>
        fst (patch_vin h img v) = Inl UnicodeEncodeError)
   \<and> (length v = 17 \<and> (\<forall>c \<in> set v. c < 128) \<longrightarrow>
        (fst (patch_vin h img v) = Inl VinNotFound
         \<longleftrightarrow> \<not> (\<exists>i. occurs_at (map of_nat v) (slice (h ! img) CAL_START CAL_END) i)))
   \<and> (length v = 17 \<and> (\<forall>c \<in> set v. c < 128) \<and> length (h ! img) = FLASH_SIZE
        \<and> (\<exists>i. occurs_at (map of_nat v) (slice (h ! img) CAL_START CAL_END) i) \<longrightarrow>
        (\<exists>i hi lo.
           occurs_at (map of_nat v) (slice (h ! img) CAL_START CAL_END) i
           \<and> (\<forall>j < i. \<not> occurs_at (map of_nat v) (slice (h ! img) CAL_START CAL_END) j)
           \<and> fst (patch_vin h img v)
               = Inr (slice_assign
                        (slice_assign (h ! img) (CAL_START + i) (CAL_START + i + 17)
                           (map of_nat v))
                        (CAL_END - 2) CAL_END [hi, lo])))"
proof (intro conjI impI)
  show "fst (patch_vin h img v) = Inl InvalidVin \<longleftrightarrow> length v \<noteq> 17"
  proof (cases "length v = 17")
    case False
    then show ?thesis by (simp add: patch_vin_def)
  next
    case True
    have "fst (patch_vin h img v) \<noteq> Inl InvalidVin"
    proof (cases "encode_ascii v")
      case (Inl e)
      then have "e = UnicodeEncodeError" by (simp add: encode_ascii_cases split: if_splits)
      with Inl patch_vin_outcome(1) [OF True, of h img] show ?thesis by simp
    next
      case (Inr vb)
      show ?thesis
      proof (cases "bytes_find (slice (h ! img) CAL_START CAL_END) vb = - 1")
        case True
        with Inr patch_vin_outcome(1) [OF \<open>length v = 17\<close>, of h img] show ?thesis by simp
      next
        case False
        from patch_vin_outcome(2) [OF \<open>length v = 17\<close> Inr False] show ?thesis by auto
      qed
    qed
    with True show ?thesis by simp
  qed
next
  assume "length v = 17 \<and> (\<exists>c \<in> set v. 128 \<le> c)"
  then have l: "length v = 17" and "\<not> (\<forall>c \<in> set v. c < 128)"
    by (auto simp: not_less)
  then have "encode_ascii v = Inl UnicodeEncodeError"
    by (simp only: encode_ascii_cases if_False)
  with patch_vin_outcome(1) [OF l, of h img]
  show "fst (patch_vin h img v) = Inl UnicodeEncodeError" by simp
next
  assume "length v = 17 \<and> (\<forall>c \<in> set v. c < 128)"
  then have l: "length v = 17" and e: "encode_ascii v = Inr (map of_nat v)"
    by (simp_all add: encode_ascii_cases)
  show "fst (patch_vin h img v) = Inl VinNotFound
      \<longleftrightarrow> \<not> (\<exists>i. occurs_at (map of_nat v) (slice (h ! img) CAL_START CAL_END) i)"
  proof (cases "bytes_find (slice (h ! img) CAL_START CAL_END) (map of_nat v) = - 1")
    case True
    with e patch_vin_outcome(1) [OF l, of h img] show ?thesis
      by (simp add: bytes_find_not_found)
  next
    case False
    from patch_vin_outcome(2) [OF l e False] have "fst (patch_vin h img v) \<noteq> Inl VinNotFound"
      by auto
    with False show ?thesis by (simp add: bytes_find_not_found)
  qed
next
  assume a: "length v = 17 \<and> (\<forall>c \<in> set v. c < 128) \<and> length (h ! img) = FLASH_SIZE
        \<and> (\<exists>i. occurs_at (map of_nat v) (slice (h ! img) CAL_START CAL_END) i)"
  let ?B = "h ! img"
  let ?vb = "map of_nat v :: bytes"
  from a have l: "length v = 17" and e: "encode_ascii v = Inr ?vb"
    and s: "length ?B = FLASH_SIZE"
    by (simp_all add: encode_ascii_cases)
  from a obtain k where "occurs_at ?vb (slice ?B CAL_START CAL_END) k" by blast
  from patch_vin_image [OF s l e this] obtain i hi lo where
    o: "occurs_at ?vb (slice ?B CAL_START CAL_END) i"
    and m: "\<forall>j < i. \<not> occurs_at ?vb (slice ?B CAL_START CAL_END) j"
    and run: "patch_vin h img v
          = (Inr (take (CAL_END - 2) ?B @ [hi, lo] @ drop CAL_END ?B),
             h @ [take (CAL_END - 2) ?B @ [hi, lo] @ drop CAL_END ?B])"
    by blast
  have lv: "length ?vb = 17" using l by simp
  have "slice_assign (slice_assign ?B (CAL_START + i) (CAL_START + i + 17) ?vb)
          (CAL_END - 2) CAL_END [hi, lo]
      = take (CAL_END - 2) ?B @ [hi, lo] @ drop CAL_END ?B"
    unfolding vin_write_identity [OF o lv] using s
    by (simp add: slice_assign_def Let_def CAL_START_def CAL_END_def CAL_SIZE_def FLASH_SIZE_def)
  with run have r: "fst (patch_vin h img v)
      = Inr (slice_assign (slice_assign ?B (CAL_START + i) (CAL_START + i + 17) ?vb)
               (CAL_END - 2) CAL_END [hi, lo])"
    by simp
  show "\<exists>i hi lo.
           occurs_at ?vb (slice ?B CAL_START CAL_END) i
           \<and> (\<forall>j < i. \<not> occurs_at ?vb (slice ?B CAL_START CAL_END) j)
           \<and> fst (patch_vin h img v)
               = Inr (slice_assign (slice_assign ?B (CAL_START + i) (CAL_START + i + 17) ?vb)
                        (CAL_END - 2) CAL_END [hi, lo])"
    by (rule exI [of _ i], rule exI [of _ hi], rule exI [of _ lo], intro conjI)
       (rule o, rule m, rule r)
qed

lemma example_vin_absent:
  "\<not> (\<exists>i. occurs_at (map of_nat [87, 66, 65, 80, 77, 55, 67, 53, 48, 65, 69, 49, 57, 50, 54, 48, 48])
           (slice ([replicate 0x100000 (0 :: byte)] ! 0) CAL_START CAL_END) i)"
proof
  let ?vb = "[87, 66, 65, 80, 77, 55, 67, 53, 48, 65, 69, 49, 57, 50, 54, 48, 48] :: bytes"
  assume "\<exists>i. occurs_at (map of_nat [87, 66, 65, 80, 77, 55, 67, 53, 48, 65, 69, 49, 57, 50, 54, 48, 48])
           (slice ([replicate 0x100000 (0 :: byte)] ! 0) CAL_START CAL_END) i"
  then obtain i where "occurs_at ?vb (slice (replicate 0x100000 (0 :: byte)) CAL_START CAL_END) i"
    by auto
  then have "take (length ?vb) (drop i (slice (replicate 0x100000 (0 :: byte)) CAL_START CAL_END))
      = ?vb"
    by (simp only: occurs_at_def)
  moreover have "\<And>k. \<exists>n. take k (drop i (slice (replicate 0x100000 (0 :: byte)) CAL_START CAL_END))
      = replicate n 0"
    by (simp add: slice_def)
  ultimately obtain n where "replicate n (0 :: byte) = ?vb" by metis
  then have "(87 :: byte) \<in> set (replicate n 0)" by simp
  then show False by (simp split: if_splits)
qed

theorem patch_vin_failures_witness:
  "fst (patch_vin
          [replicate 0x10000 0
           @ [87, 66, 65, 80, 77, 55, 67, 53, 48, 65, 69, 49, 57, 50, 54, 48, 48]
           @ replicate 0xEFFEF 0] 0 [87, 66, 65]) = Inl InvalidVin
   \<and> fst (patch_vin [replicate 0x100000 0] 0
          [87, 66, 65, 80, 77, 55, 67, 53, 48, 65, 69, 49, 57, 50, 54, 48, 233])
       = Inl UnicodeEncodeError
   \<and> fst (patch_vin [replicate 0x100000 0] 0
          [87, 66, 65, 80, 77, 55, 67, 53, 48, 65, 69, 49, 57, 50, 54, 48, 48])
       = Inl VinNotFound
   \<and> (\<exists>out. fst (patch_vin
          [replicate 0x10000 0
           @ [87, 66, 65, 80, 77, 55, 67, 53, 48, 65, 69, 49, 57, 50, 54, 48, 48]
           @ replicate 0xEFFEF 0] 0
          [87, 66, 65, 80, 77, 55, 67, 53, 48, 65, 69, 49, 57, 50, 54, 48, 48]) = Inr out)"
proof (intro conjI)
  let ?I = "replicate 0x10000 (0 :: byte)
        @ [87, 66, 65, 80, 77, 55, 67, 53, 48, 65, 69, 49, 57, 50, 54, 48, 48]
        @ replicate 0xEFFEF 0"
  let ?Z = "replicate 0x100000 (0 :: byte)"
  let ?v = "[87, 66, 65, 80, 77, 55, 67, 53, 48, 65, 69, 49, 57, 50, 54, 48, 48 :: nat]"
  let ?u = "[87, 66, 65, 80, 77, 55, 67, 53, 48, 65, 69, 49, 57, 50, 54, 48, 233 :: nat]"
  have "length [87, 66, 65 :: nat] \<noteq> 17" by simp
  with patch_vin_failures [of "[?I]" 0 "[87, 66, 65]"]
  show "fst (patch_vin [?I] 0 [87, 66, 65]) = Inl InvalidVin" by blast
  have "length ?u = 17 \<and> (\<exists>c \<in> set ?u. 128 \<le> c)" by simp
  with patch_vin_failures [of "[?Z]" 0 ?u]
  show "fst (patch_vin [?Z] 0 ?u) = Inl UnicodeEncodeError" by blast
  have asc: "length ?v = 17 \<and> (\<forall>c \<in> set ?v. c < 128)" by simp
  with patch_vin_failures [of "[?Z]" 0 ?v] example_vin_absent
  show "fst (patch_vin [?Z] 0 ?v) = Inl VinNotFound" by blast
  have "occurs_at (map of_nat ?v) (slice ([?I] ! 0) CAL_START CAL_END) 0"
    using example_image_vin by simp
  then have "\<exists>i. occurs_at (map of_nat ?v) (slice ([?I] ! 0) CAL_START CAL_END) i" ..
  moreover have "length ([?I] ! 0) = FLASH_SIZE" using example_image_length by simp
  ultimately have "\<exists>i hi lo.
           occurs_at (map of_nat ?v) (slice ([?I] ! 0) CAL_START CAL_END) i
           \<and> (\<forall>j < i. \<not> occurs_at (map of_nat ?v) (slice ([?I] ! 0) CAL_START CAL_END) j)
           \<and> fst (patch_vin [?I] 0 ?v)
               = Inr (slice_assign
                        (slice_assign ([?I] ! 0) (CAL_START + i) (CAL_START + i + 17)
                           (map of_nat ?v))
                        (CAL_END - 2) CAL_END [hi, lo])"
    using patch_vin_failures [of "[?I]" 0 ?v] asc by blast
  then show "\<exists>out. fst (patch_vin [?I] 0 ?v) = Inr out" by blast
qed

lemma short_image_patch:
  "fst (patch_vin
          [replicate 0x10000 0
           @ [87, 66, 65, 80, 77, 55, 67, 53, 48, 65, 69, 49, 57, 50, 54, 48, 48]] 0
          [87, 66, 65, 80, 77, 55, 67, 53, 48, 65, 69, 49, 57, 50, 54, 48, 48])
   = Inl StructError"
proof -
  let ?vb = "[87, 66, 65, 80, 77, 55, 67, 53, 48, 65, 69, 49, 57, 50, 54, 48, 48] :: bytes"
  let ?I = "replicate 0x10000 (0 :: byte) @ ?vb"
  have cal: "slice ?I CAL_START CAL_END = ?vb"
    by (simp add: slice_def CAL_START_def CAL_END_def CAL_SIZE_def)
  have f: "bytes_find ?vb ?vb = 0" by (simp add: bytes_find_def)
  have w: "slice_assign ?I CAL_START (CAL_START + 17) ?vb = ?I"
    by (simp add: slice_assign_def Let_def CAL_START_def)
  have x: "fix_cal_checksum [?I, ?I] (Suc 0) = (Inl StructError, [?I, ?I])"
    by (simp add: fix_cal_checksum_def Let_def cal iter_unpack_H_def)
  show ?thesis
    unfolding patch_vin_def bytearray_def Let_def
    by (simp add: example_vin_ascii cal f w x)
qed

theorem patch_vin_failures_counterexample:
  "length [87, 66, 65, 80, 77, 55, 67, 53, 48, 65, 69, 49, 57, 50, 54, 48, 233 :: nat] = 17
   \<and> fst (patch_vin [replicate 0x100000 0] 0
          [87, 66, 65, 80, 77, 55, 67, 53, 48, 65, 69, 49, 57, 50, 54, 48, 233])
       = Inl UnicodeEncodeError
   \<and> occurs_at [87, 66, 65, 80, 77, 55, 67, 53, 48, 65, 69, 49, 57, 50, 54, 48, 48]
       (slice (replicate 0x10000 0
               @ [87, 66, 65, 80, 77, 55, 67, 53, 48, 65, 69, 49, 57, 50, 54, 48, 48])
          CAL_START CAL_END) 0
   \<and> fst (patch_vin
          [replicate 0x10000 0
           @ [87, 66, 65, 80, 77, 55, 67, 53, 48, 65, 69, 49, 57, 50, 54, 48, 48]] 0
          [87, 66, 65, 80, 77, 55, 67, 53, 48, 65, 69, 49, 57, 50, 54, 48, 48])
       = Inl StructError"
proof (intro conjI)
  show "length [87, 66, 65, 80, 77, 55, 67, 53, 48, 65, 69, 49, 57, 50, 54, 48, 233 :: nat] = 17"
    by simp
  show "fst (patch_vin [replicate 0x100000 0] 0
          [87, 66, 65, 80, 77, 55, 67, 53, 48, 65, 69, 49, 57, 50, 54, 48, 233])
       = Inl UnicodeEncodeError"
    by (simp add: patch_vin_def bytearray_def encode_ascii_def)
  show "occurs_at [87, 66, 65, 80, 77, 55, 67, 53, 48, 65, 69, 49, 57, 50, 54, 48, 48]
       (slice (replicate 0x10000 (0 :: byte)
               @ [87, 66, 65, 80, 77, 55, 67, 53, 48, 65, 69, 49, 57, 50, 54, 48, 48])
          CAL_START CAL_END) 0"
    by (simp add: occurs_at_def slice_def CAL_START_def CAL_END_def CAL_SIZE_def)
  show "fst (patch_vin
          [replicate 0x10000 0
           @ [87, 66, 65, 80, 77, 55, 67, 53, 48, 65, 69, 49, 57, 50, 54, 48, 48]] 0
          [87, 66, 65, 80, 77, 55, 67, 53, 48, 65, 69, 49, 57, 50, 54, 48, 48])
       = Inl StructError"
    by (rule short_image_patch)
qed

end
